theory Spec2Isabelle
  imports Main "HOL-Library.AList"
begin

section \<open>Strings\<close>

text \<open>
  A JavaScript string is modelled as a \<^typ>\<open>string\<close>: a list of code units, here the
  code units U+0000 to U+00FF. \<open>is_space\<close> holds of the code units in that range that
  \<open>String.prototype.trim\<close> removes (tab, line feed, vertical tab, form feed, carriage return,
  space, no-break space).
\<close>

definition is_space :: "char \<Rightarrow> bool" where
  "is_space c = (c \<in> set [CHR 0x09, CHR 0x0A, CHR 0x0B, CHR 0x0C, CHR 0x0D, CHR 0x20, CHR 0xA0])"

definition trim :: "string \<Rightarrow> string" where
  "trim s = rev (dropWhile is_space (rev (dropWhile is_space s)))"

text \<open>\<open>Array.prototype.slice(start)\<close> with one argument: a negative start counts from the end.\<close>

definition slice_from :: "int \<Rightarrow> 'a list \<Rightarrow> 'a list" where
  "slice_from start xs =
     (let n = int (length xs);
          k = (if start < 0 then max (n + start) 0 else min start n)
      in drop (nat k) xs)"

section \<open>Data model (types.ts)\<close>

datatype provider_name = Codex | Claude

definition providerNames :: "provider_name list" where
  "providerNames = [Codex, Claude]"

fun provider_str :: "provider_name \<Rightarrow> string" where
  "provider_str Codex = ''codex''"
| "provider_str Claude = ''claude''"

datatype message_role = System | User | Assistant

fun role_str :: "message_role \<Rightarrow> string" where
  "role_str System = ''system''"
| "role_str User = ''user''"
| "role_str Assistant = ''assistant''"

record conversation_message =
  role :: message_role
  content :: string

section \<open>Parsed JSON documents\<close>

text \<open>
  The value \<open>JSON.parse\<close> returns and \<open>JSON.stringify\<close> takes. An object is the list of its
  own properties, each key once; a property that is missing reads as \<open>undefined\<close>, here
  \<open>None\<close>. Only the number \<open>1\<close> of the version field is ever inspected, so numbers are
  integers.
\<close>

datatype json =
    JNull
  | JBool bool
  | JNum int
  | JStr string
  | JArr "json list"
  | JObj "(string \<times> json) list"

section \<open>Session store (session-store.ts)\<close>

record chat_session =
  provider :: provider_name
  history :: "conversation_message list"
  modelOverrides :: "provider_name \<rightharpoonup> string"
  reasoningEffortOverrides :: "provider_name \<rightharpoonup> string"

text \<open>The file at the persistence path: absent, not parsable as JSON, or a JSON document.\<close>

datatype disk_file = NoFile | Unparsable | Doc json

text \<open>
  The store object together with the file it writes. \<open>sessions\<close> is the \<open>Map\<close> in insertion
  order; \<open>clock\<close> stands for \<open>new Date().toISOString()\<close>. (Through the file the order of
  keys that look like integers can change; nothing below depends on the order, only on what
  each key maps to.)
\<close>

record session_store =
  defaultProvider :: provider_name
  maxHistory :: int
  persistencePath :: "string option"
  sessions :: "(string \<times> chat_session) list"
  disk :: disk_file
  clock :: string

fun normalizeProvider :: "json option \<Rightarrow> provider_name \<Rightarrow> provider_name" where
  "normalizeProvider (Some (JStr v)) fallback =
     (if v = ''codex'' then Codex else if v = ''claude'' then Claude else fallback)"
| "normalizeProvider _ fallback = fallback"

fun normalizeOverrides :: "json option \<Rightarrow> (provider_name \<rightharpoonup> string)" where
  "normalizeOverrides (Some (JObj input)) =
     (\<lambda>p. if p \<in> set providerNames
          then (case map_of input (provider_str p) of
                  Some (JStr v) \<Rightarrow> if trim v \<noteq> [] then Some (trim v) else None
                | _ \<Rightarrow> None)
          else None)"
| "normalizeOverrides _ = Map.empty"

fun normalizeItem :: "json \<Rightarrow> conversation_message list" where
  "normalizeItem (JObj item) =
     (case (map_of item ''role'', map_of item ''content'') of
        (Some (JStr r), Some (JStr c)) \<Rightarrow>
          if (r = ''user'' \<or> r = ''assistant'') \<and> length c > 0
          then [\<lparr>role = (if r = ''user'' then User else Assistant), content = c\<rparr>]
          else []
      | _ \<Rightarrow> [])"
| "normalizeItem _ = []"

fun normalizeHistory :: "json option \<Rightarrow> conversation_message list" where
  "normalizeHistory (Some (JArr input)) = concat (map normalizeItem input)"
| "normalizeHistory _ = []"

definition dropLeadingAssistant :: "conversation_message list \<Rightarrow> conversation_message list" where
  "dropLeadingAssistant trimmed =
     (case trimmed of
        [] \<Rightarrow> trimmed
      | m # _ \<Rightarrow> if role m = Assistant then slice_from 1 trimmed else trimmed)"

definition trimHistory :: "int \<Rightarrow> conversation_message list \<Rightarrow> conversation_message list" where
  "trimHistory maxH h =
     (if int (length h) \<le> maxH then h
      else dropLeadingAssistant (slice_from (- maxH) h))"

definition message_json :: "conversation_message \<Rightarrow> json" where
  "message_json m = JObj [(''role'', JStr (role_str (role m))), (''content'', JStr (content m))]"

definition overrides_json :: "(provider_name \<rightharpoonup> string) \<Rightarrow> json" where
  "overrides_json ov =
     JObj (concat (map (\<lambda>p. case ov p of None \<Rightarrow> [] | Some v \<Rightarrow> [(provider_str p, JStr v)])
                       providerNames))"

definition session_json :: "chat_session \<Rightarrow> json" where
  "session_json s =
     JObj [(''provider'', JStr (provider_str (provider s))),
           (''history'', JArr (map message_json (history s))),
           (''modelOverrides'', overrides_json (modelOverrides s)),
           (''reasoningEffortOverrides'', overrides_json (reasoningEffortOverrides s))]"

definition payload :: "session_store \<Rightarrow> json" where
  "payload st =
     JObj [(''version'', JNum 1),
           (''savedAt'', JStr (clock st)),
           (''sessions'', JObj (map (\<lambda>(k, s). (k, session_json s)) (sessions st)))]"

text \<open>
  \<open>persist\<close>: nothing without a persistence path; otherwise the whole store replaces the file.
  A failing write is caught and logged by the source and is not modelled. The file holds the
  document itself: \<open>JSON.stringify\<close> followed by \<open>JSON.parse\<close> gives the document back.
\<close>

definition persist :: "session_store \<Rightarrow> session_store" where
  "persist st =
     (case persistencePath st of
        None \<Rightarrow> st
      | Some _ \<Rightarrow> st\<lparr>disk := Doc (payload st)\<rparr>)"

definition put_session :: "string \<Rightarrow> chat_session \<Rightarrow> session_store \<Rightarrow> session_store" where
  "put_session chatKey s st = st\<lparr>sessions := AList.update chatKey s (sessions st)\<rparr>"

definition new_session :: "session_store \<Rightarrow> chat_session" where
  "new_session st =
     \<lparr>provider = defaultProvider st, history = [],
      modelOverrides = Map.empty, reasoningEffortOverrides = Map.empty\<rparr>"

definition getOrCreate :: "string \<Rightarrow> session_store \<Rightarrow> chat_session \<times> session_store" where
  "getOrCreate chatKey st =
     (case map_of (sessions st) chatKey of
        Some existing \<Rightarrow> (existing, st)
      | None \<Rightarrow> (new_session st, put_session chatKey (new_session st) st))"

definition load_entry :: "session_store \<Rightarrow> string \<times> json \<Rightarrow> session_store" where
  "load_entry st e =
     (case snd e of
        JObj v \<Rightarrow>
          put_session (fst e)
            \<lparr>provider = normalizeProvider (map_of v ''provider'') (defaultProvider st),
             history = trimHistory (maxHistory st) (normalizeHistory (map_of v ''history'')),
             modelOverrides = normalizeOverrides (map_of v ''modelOverrides''),
             reasoningEffortOverrides = normalizeOverrides (map_of v ''reasoningEffortOverrides'')\<rparr>
            st
      | _ \<Rightarrow> st)"

definition loadFromDisk :: "session_store \<Rightarrow> session_store" where
  "loadFromDisk st =
     (case persistencePath st of
        None \<Rightarrow> st
      | Some _ \<Rightarrow>
          (case disk st of
             NoFile \<Rightarrow> st
           | Unparsable \<Rightarrow> st
           | Doc raw \<Rightarrow>
               (case raw of
                  JObj root \<Rightarrow>
                    (if map_of root ''version'' \<noteq> Some (JNum 1) then st
                     else (case map_of root ''sessions'' of
                             Some (JObj entries) \<Rightarrow> foldl load_entry st entries
                           | _ \<Rightarrow> st))
                | _ \<Rightarrow> st)))"

text \<open>The constructor: an empty map, then whatever the file holds.\<close>

definition SessionStore :: "provider_name \<Rightarrow> int \<Rightarrow> string option \<Rightarrow> disk_file \<Rightarrow> string \<Rightarrow> session_store" where
  "SessionStore dp maxH path file now =
     loadFromDisk
       \<lparr>defaultProvider = dp, maxHistory = maxH,
        persistencePath = (case path of
                             None \<Rightarrow> None
                           | Some p \<Rightarrow> if trim p = [] then None else Some (trim p)),
        sessions = [], disk = file, clock = now\<rparr>"

definition getSessionCount :: "session_store \<Rightarrow> nat" where
  "getSessionCount st = length (sessions st)"

definition getProvider :: "string \<Rightarrow> session_store \<Rightarrow> provider_name \<times> session_store" where
  "getProvider chatKey st = (let (session, st1) = getOrCreate chatKey st in (provider session, st1))"

definition setProvider :: "string \<Rightarrow> provider_name \<Rightarrow> session_store \<Rightarrow> session_store" where
  "setProvider chatKey p st =
     (let (session, st1) = getOrCreate chatKey st
      in persist (put_session chatKey (session\<lparr>provider := p\<rparr>) st1))"

definition reset :: "string \<Rightarrow> session_store \<Rightarrow> session_store" where
  "reset chatKey st = persist (st\<lparr>sessions := AList.delete chatKey (sessions st)\<rparr>)"

definition getModel :: "string \<Rightarrow> provider_name \<Rightarrow> session_store \<Rightarrow> string option \<times> session_store" where
  "getModel chatKey p st =
     (let (session, st1) = getOrCreate chatKey st in (modelOverrides session p, st1))"

text \<open>\<open>!model?.trim()\<close>: the argument is \<open>undefined\<close> or trims to the empty string.\<close>

definition blank :: "string option \<Rightarrow> bool" where
  "blank v = (case v of None \<Rightarrow> True | Some s \<Rightarrow> trim s = [])"

definition setModel :: "string \<Rightarrow> provider_name \<Rightarrow> string option \<Rightarrow> session_store \<Rightarrow> session_store" where
  "setModel chatKey p model st =
     (let (session, st1) = getOrCreate chatKey st
      in if blank model
         then persist (put_session chatKey
                (session\<lparr>modelOverrides := (modelOverrides session)(p := None)\<rparr>) st1)
         else persist (put_session chatKey
                (session\<lparr>modelOverrides := (modelOverrides session)(p \<mapsto> trim (the model))\<rparr>) st1))"

definition getReasoningEffort :: "string \<Rightarrow> provider_name \<Rightarrow> session_store \<Rightarrow> string option \<times> session_store" where
  "getReasoningEffort chatKey p st =
     (let (session, st1) = getOrCreate chatKey st in (reasoningEffortOverrides session p, st1))"

definition setReasoningEffort :: "string \<Rightarrow> provider_name \<Rightarrow> string option \<Rightarrow> session_store \<Rightarrow> session_store" where
  "setReasoningEffort chatKey p effort st =
     (let (session, st1) = getOrCreate chatKey st
      in if blank effort
         then persist (put_session chatKey
                (session\<lparr>reasoningEffortOverrides := (reasoningEffortOverrides session)(p := None)\<rparr>) st1)
         else persist (put_session chatKey
                (session\<lparr>reasoningEffortOverrides :=
                   (reasoningEffortOverrides session)(p \<mapsto> trim (the effort))\<rparr>) st1))"

definition buildPrompt :: "string \<Rightarrow> string \<Rightarrow> string option \<Rightarrow> session_store \<Rightarrow> conversation_message list \<times> session_store" where
  "buildPrompt chatKey userText systemPrompt st =
     (let (session, st1) = getOrCreate chatKey st;
          messages = (case systemPrompt of
                        None \<Rightarrow> []
                      | Some sp \<Rightarrow> if sp = [] then [] else [\<lparr>role = System, content = sp\<rparr>])
      in (messages @ history session @ [\<lparr>role = User, content = userText\<rparr>], st1))"

definition appendExchange :: "string \<Rightarrow> string \<Rightarrow> string \<Rightarrow> session_store \<Rightarrow> session_store" where
  "appendExchange chatKey userText assistantText st =
     (let (session, st1) = getOrCreate chatKey st;
          pushed = history session @ [\<lparr>role = User, content = userText\<rparr>]
                                   @ [\<lparr>role = Assistant, content = assistantText\<rparr>];
          h = (if int (length pushed) > maxHistory st1
               then dropLeadingAssistant (slice_from (- maxHistory st1) pushed)
               else pushed)
      in persist (put_session chatKey (session\<lparr>history := h\<rparr>) st1))"


text \<open>The public operations of the store, as values, and a sequence of them run in order.\<close>

datatype store_op =
    GetProvider string
  | SetProvider string provider_name
  | Reset string
  | GetModel string provider_name
  | SetModel string provider_name "string option"
  | GetReasoningEffort string provider_name
  | SetReasoningEffort string provider_name "string option"
  | BuildPrompt string string "string option"
  | AppendExchange string string string

fun apply_op :: "session_store \<Rightarrow> store_op \<Rightarrow> session_store" where
  "apply_op st (GetProvider k) = snd (getProvider k st)"
| "apply_op st (SetProvider k p) = setProvider k p st"
| "apply_op st (Reset k) = reset k st"
| "apply_op st (GetModel k p) = snd (getModel k p st)"
| "apply_op st (SetModel k p m) = setModel k p m st"
| "apply_op st (GetReasoningEffort k p) = snd (getReasoningEffort k p st)"
| "apply_op st (SetReasoningEffort k p e) = setReasoningEffort k p e st"
| "apply_op st (BuildPrompt k u sp) = snd (buildPrompt k u sp st)"
| "apply_op st (AppendExchange k u a) = appendExchange k u a st"

definition run_ops :: "store_op list \<Rightarrow> session_store \<Rightarrow> session_store" where
  "run_ops ops st = foldl apply_op st ops"

text \<open>An exchange with a user text and a reply that are not empty, as the bot passes them.\<close>

fun nonempty_exchange :: "store_op \<Rightarrow> bool" where
  "nonempty_exchange (AppendExchange k u a) = (u \<noteq> [] \<and> a \<noteq> [])"
| "nonempty_exchange _ = True"

text \<open>
  The history invariant of the specification: at most \<open>maxHistory\<close> messages, the first one,
  if any, from the user.
\<close>

definition history_inv :: "int \<Rightarrow> conversation_message list \<Rightarrow> bool" where
  "history_inv maxH h =
     (int (length h) \<le> maxH \<and> (case h of [] \<Rightarrow> True | m # _ \<Rightarrow> role m = User))"

section \<open>Conversation orchestrator (chat-service.ts)\<close>

text \<open>
  A provider's \<open>stream\<close>: from the prompt and the selected model and reasoning effort to the
  final reply, or the message of the error it throws. The callbacks only observe the stream and
  are left out here.
\<close>

type_synonym llm_provider =
  "conversation_message list \<Rightarrow> string option \<Rightarrow> string option \<Rightarrow> string + string"

datatype chat_error =
    NoProvidersAvailable
  | ProviderNotAvailable provider_name
  | StreamFailed string

definition getAvailableProviders :: "(provider_name \<times> llm_provider) list \<Rightarrow> provider_name list" where
  "getAvailableProviders providers = map fst providers"

text \<open>The part of \<open>askStream\<close> after the provider is resolved.\<close>

definition askWith ::
  "string option \<Rightarrow> string \<Rightarrow> string \<Rightarrow> provider_name \<Rightarrow> llm_provider \<Rightarrow> session_store
     \<Rightarrow> (chat_error + provider_name \<times> string) \<times> session_store" where
  "askWith systemPrompt chatKey userText providerName prov st =
     (let (prompt, st1) = buildPrompt chatKey userText systemPrompt st;
          (selectedModel, st2) = getModel chatKey providerName st1;
          (selectedReasoningEffort, st3) = getReasoningEffort chatKey providerName st2
      in case prov prompt selectedModel selectedReasoningEffort of
           Inl err \<Rightarrow> (Inl (StreamFailed err), st3)
         | Inr reply \<Rightarrow> (Inr (providerName, reply), appendExchange chatKey userText reply st3))"

text \<open>
  \<open>askStream\<close>, run as one uninterrupted task: the body that \<open>withChatLock\<close> runs for the
  conversation. \<open>providers\<close> is the registry \<open>Map\<close> in insertion order.
\<close>

definition askStream ::
  "(provider_name \<times> llm_provider) list \<Rightarrow> string option \<Rightarrow> string \<Rightarrow> string \<Rightarrow> session_store
     \<Rightarrow> (chat_error + provider_name \<times> string) \<times> session_store" where
  "askStream providers systemPrompt chatKey userText st =
     (let (providerName, st1) = getProvider chatKey st
      in case map_of providers providerName of
           Some prov \<Rightarrow> askWith systemPrompt chatKey userText providerName prov st1
         | None \<Rightarrow>
             (case getAvailableProviders providers of
                [] \<Rightarrow> (Inl NoProvidersAvailable, st1)
              | fallback # _ \<Rightarrow>
                  (let st2 = setProvider chatKey fallback st1
                   in case map_of providers fallback of
                        None \<Rightarrow> (Inl (ProviderNotAvailable fallback), st2)
                      | Some prov \<Rightarrow> askWith systemPrompt chatKey userText fallback prov st2)))"

text \<open>The history a conversation has in the store; a conversation without a session has none.\<close>

definition history_of :: "session_store \<Rightarrow> string \<Rightarrow> conversation_message list" where
  "history_of st chatKey =
     (case map_of (sessions st) chatKey of None \<Rightarrow> [] | Some s \<Rightarrow> history s)"

section \<open>Incremental output coalescer (stream-edit.ts)\<close>

text \<open>
  \<open>createStreamEditController\<close> is asynchronous: \<open>run\<close> suspends in \<open>sleep\<close> and in \<open>edit\<close>,
  and \<open>queue\<close> and \<open>flush\<close> may be called meanwhile. The model is the controller's closure
  state with the point where \<open>run\<close> is suspended, driven by events: the two calls, the
  passing of time, the timer firing, and \<open>edit\<close> settling. Synchronous code takes no time.
\<close>

datatype phase =
    Idle
  | Sleeping string int
  | Editing string

text \<open>
  What can be observed: \<open>edit\<close> called with a text at a time, \<open>edit\<close> resolving or
  rejecting at a time, and \<open>flush\<close> being called, resolving or rejecting.
\<close>

datatype obs =
    Publish string int
  | Applied string int
  | Rejected string int
  | FlushCall string
  | FlushReturn string
  | FlushThrow string

text \<open>
  \<open>phase\<close>: \<open>Sleeping text due\<close> is \<open>run\<close> inside \<open>await sleep(wait)\<close> holding \<open>text\<close>, the timer
  due at \<open>due\<close>; \<open>Editing text\<close> is \<open>run\<close> inside \<open>await edit(text)\<close>. \<open>awaiting\<close> is the
  \<open>flush\<close> call whose \<open>await run()\<close> waits for the running loop. \<open>now\<close> is \<open>Date.now()\<close>.
\<close>

record controller =
  pending :: "string option"
  lastApplied :: string
  lastEditAt :: int
  processing :: bool
  phase :: phase
  awaiting :: "string option"
  now :: int
  trace :: "obs list"

definition createStreamEditController :: "int \<Rightarrow> controller" where
  "createStreamEditController t0 =
     \<lparr>pending = None, lastApplied = [], lastEditAt = 0, processing = False,
      phase = Idle, awaiting = None, now = t0, trace = []\<rparr>"

definition call_edit :: "string \<Rightarrow> controller \<Rightarrow> controller" where
  "call_edit text s = s\<lparr>phase := Editing text, trace := trace s @ [Publish text (now s)]\<rparr>"

text \<open>The loop is left: \<open>finally\<close> clears \<open>processing\<close> and \<open>run\<close> resolves.\<close>

definition run_done :: "controller \<Rightarrow> controller" where
  "run_done s =
     s\<lparr>processing := False, phase := Idle, awaiting := None,
       trace := trace s @ (case awaiting s of None \<Rightarrow> [] | Some v \<Rightarrow> [FlushReturn v])\<rparr>"

text \<open>\<open>edit\<close> rejected: \<open>finally\<close> clears \<open>processing\<close> and \<open>run\<close> rejects.\<close>

definition run_failed :: "controller \<Rightarrow> controller" where
  "run_failed s =
     s\<lparr>processing := False, phase := Idle, awaiting := None,
       trace := trace s @ (case awaiting s of None \<Rightarrow> [] | Some v \<Rightarrow> [FlushThrow v])\<rparr>"

text \<open>The \<open>while (pending !== null)\<close> loop, from its head up to the next \<open>await\<close> or its end.\<close>

function drain :: "int \<Rightarrow> controller \<Rightarrow> controller" where
  "drain intervalMs s =
     (case pending s of
        None \<Rightarrow> run_done s
      | Some text \<Rightarrow>
          (let s1 = s\<lparr>pending := None\<rparr>
           in if text = [] \<or> text = lastApplied s1 then drain intervalMs s1
              else (let wait = intervalMs - (now s1 - lastEditAt s1)
                    in if wait > 0 then s1\<lparr>phase := Sleeping text (now s1 + wait)\<rparr>
                       else call_edit text s1)))"
  by pat_completeness auto
termination
  by (relation "measure (\<lambda>(i, s). case pending s of None \<Rightarrow> 0 | Some _ \<Rightarrow> 1)") auto

text \<open>
  \<open>run\<close> as called on behalf of \<open>who\<close> (\<open>None\<close> for \<open>queue\<close>, the text for \<open>flush\<close>): when a
  loop is already running it returns at once, which resolves a waiting \<open>flush\<close>.
\<close>

definition run :: "int \<Rightarrow> string option \<Rightarrow> controller \<Rightarrow> controller" where
  "run intervalMs who s =
     (if processing s
      then s\<lparr>trace := trace s @ (case who of None \<Rightarrow> [] | Some v \<Rightarrow> [FlushReturn v])\<rparr>
      else drain intervalMs (s\<lparr>processing := True, awaiting := who\<rparr>))"

datatype event =
    Queue string
  | Flush string
  | Tick int
  | Wake
  | EditOk
  | EditErr

text \<open>
  One event. \<open>Tick d\<close>: the clock reads \<open>d\<close> more than before (less, when the system clock
  was set back). \<open>Wake\<close>: the timer of \<open>sleep\<close> fires; \<open>run\<close> goes on to \<open>edit\<close> without
  looking at the clock again, whatever the clock reads. An event that does not apply in the
  current phase changes nothing.
\<close>

fun step :: "int \<Rightarrow> controller \<Rightarrow> event \<Rightarrow> controller" where
  "step intervalMs s (Queue text) = run intervalMs None (s\<lparr>pending := Some text\<rparr>)"
| "step intervalMs s (Flush text) =
     run intervalMs (Some text) (s\<lparr>pending := Some text, trace := trace s @ [FlushCall text]\<rparr>)"
| "step intervalMs s (Tick d) = s\<lparr>now := now s + d\<rparr>"
| "step intervalMs s Wake =
     (case phase s of
        Sleeping text due \<Rightarrow> call_edit text s
      | _ \<Rightarrow> s)"
| "step intervalMs s EditOk =
     (case phase s of
        Editing text \<Rightarrow>
          drain intervalMs
            (s\<lparr>lastApplied := text, lastEditAt := now s,
               trace := trace s @ [Applied text (now s)]\<rparr>)
      | _ \<Rightarrow> s)"
| "step intervalMs s EditErr =
     (case phase s of
        Editing text \<Rightarrow> run_failed (s\<lparr>trace := trace s @ [Rejected text (now s)]\<rparr>)
      | _ \<Rightarrow> s)"

definition exec :: "int \<Rightarrow> event list \<Rightarrow> controller \<Rightarrow> controller" where
  "exec intervalMs evs s = foldl (step intervalMs) s evs"

text \<open>
  What the throttle takes for granted of its environment: the clock that \<open>Date.now()\<close> reads
  never goes back, and the timer of \<open>sleep\<close> never fires before the clock has reached the
  time it is due. \<open>punctual\<close> says so of a run of events from a state.
\<close>

fun on_time :: "controller \<Rightarrow> event \<Rightarrow> bool" where
  "on_time s (Tick d) = (0 \<le> d)"
| "on_time s Wake = (case phase s of Sleeping v due \<Rightarrow> due \<le> now s | _ \<Rightarrow> True)"
| "on_time s _ = True"

fun punctual :: "int \<Rightarrow> controller \<Rightarrow> event list \<Rightarrow> bool" where
  "punctual intervalMs s [] = True"
| "punctual intervalMs s (e # evs) = (on_time s e \<and> punctual intervalMs (step intervalMs s e) evs)"

text \<open>
  The flush guarantee as the specification words it: whenever a \<open>flush\<close> returns, \<open>edit\<close> has
  been called since that \<open>flush\<close> was called, and its latest call had the flushed text.
  \<open>lastp\<close> is the text of the latest call of \<open>edit\<close>, \<open>fired\<close> whether \<open>edit\<close> was called since
  the latest call of \<open>flush\<close>.
\<close>

fun flush_applied :: "string option \<Rightarrow> bool \<Rightarrow> obs list \<Rightarrow> bool" where
  "flush_applied lastp fired [] = True"
| "flush_applied lastp fired (FlushCall v # tr) = flush_applied lastp False tr"
| "flush_applied lastp fired (Publish v t # tr) = flush_applied (Some v) True tr"
| "flush_applied lastp fired (FlushReturn v # tr) =
     (lastp = Some v \<and> fired \<and> flush_applied lastp fired tr)"
| "flush_applied lastp fired (_ # tr) = flush_applied lastp fired tr"

text \<open>
  The throttle as the specification words it: two consecutive calls of \<open>edit\<close> are at least
  the interval apart. \<open>prev\<close> is the time of the previous call.
\<close>

fun min_gap :: "int \<Rightarrow> int option \<Rightarrow> obs list \<Rightarrow> bool" where
  "min_gap intervalMs prev [] = True"
| "min_gap intervalMs prev (Publish v t # tr) =
     ((case prev of None \<Rightarrow> True | Some p \<Rightarrow> intervalMs \<le> t - p) \<and> min_gap intervalMs (Some t) tr)"
| "min_gap intervalMs prev (_ # tr) = min_gap intervalMs prev tr"

text \<open>
  The throttle as the loop computes it: every call of \<open>edit\<close> comes at least the interval
  after the latest resolved \<open>edit\<close>. \<open>ok\<close> is the time that one resolved (0 at the start).
\<close>

fun spaced :: "int \<Rightarrow> int \<Rightarrow> obs list \<Rightarrow> bool" where
  "spaced intervalMs ok [] = True"
| "spaced intervalMs ok (Publish v t # tr) = (ok + intervalMs \<le> t \<and> spaced intervalMs ok tr)"
| "spaced intervalMs ok (Applied v t # tr) = spaced intervalMs t tr"
| "spaced intervalMs ok (_ # tr) = spaced intervalMs ok tr"


section \<open>Subprocess streaming executor (run-jsonl-cli.ts)\<close>




text \<open>The closures handed to \<open>queue\<close>, in the order they are handed over.\<close>

datatype queued = LineCall string | StderrCall string






text \<open>
  What the child process does: its output in arrival order, each piece the bytes of one
  \<open>data\<close> event (a \<open>Buffer\<close>; \<open>'b\<close> is the type of a byte).
\<close>

datatype 'b child_event = StdoutData "'b list" | StderrData "'b list"








text \<open>The lines \<open>onLine\<close> was called with, in order.\<close>

fun line_calls :: "queued list \<Rightarrow> string list" where
  "line_calls [] = []"
| "line_calls (LineCall line # cs) = line # line_calls cs"
| "line_calls (StderrCall t # cs) = line_calls cs"

text \<open>\<open>String.prototype.split\<close> on one character.\<close>

fun split_on :: "char \<Rightarrow> string \<Rightarrow> string list" where
  "split_on c [] = [[]]"
| "split_on c (x # xs) =
     (if x = c then [] # split_on c xs
      else (case split_on c xs of
              [] \<Rightarrow> [[x]]
            | l # ls \<Rightarrow> (x # l) # ls))"



text \<open>
  The text the stdout handler has taken in: the chunks, each decoded on its own. And the
  bytes of the whole output.
\<close>

fun stdout_of :: "('b list \<Rightarrow> string) \<Rightarrow> 'b child_event list \<Rightarrow> string" where
  "stdout_of decode [] = []"
| "stdout_of decode (StdoutData chunk # evs) = decode chunk @ stdout_of decode evs"
| "stdout_of decode (StderrData chunk # evs) = stdout_of decode evs"


section \<open>Prompt rendering (render-cli-prompt.ts)\<close>




section \<open>Codex adapter (codex-cli-provider.ts)\<close>















record codex_provider =
  command :: string
  cwd :: string
  model :: "string option"
  dangerouslyBypassApprovalsAndSandbox :: bool

text \<open>The variables \<open>stream\<close> closes over, with the state of the caller's callbacks.\<close>

record 'c codex_closure =
  reply :: string
  cliErrorMessage :: string
  caller :: 'c









section \<open>Invariants of the coalescer\<close>

text \<open>The time the latest resolved \<open>edit\<close> resolved at, and the time of the latest call of \<open>edit\<close>.\<close>

fun last_ok :: "int \<Rightarrow> obs list \<Rightarrow> int" where
  "last_ok ok [] = ok"
| "last_ok ok (Applied v t # tr) = last_ok t tr"
| "last_ok ok (_ # tr) = last_ok ok tr"

fun last_pub :: "int option \<Rightarrow> obs list \<Rightarrow> int option" where
  "last_pub prev [] = prev"
| "last_pub prev (Publish v t # tr) = last_pub (Some t) tr"
| "last_pub prev (_ # tr) = last_pub prev tr"

fun publish_nonempty :: "obs \<Rightarrow> bool" where
  "publish_nonempty (Publish v t) = (v \<noteq> [])"
| "publish_nonempty _ = True"

fun is_editing :: "phase \<Rightarrow> bool" where
  "is_editing (Editing v) = True"
| "is_editing _ = False"

text \<open>What holds whenever \<open>drain\<close> is entered, and what holds between events.\<close>

definition drain_pre :: "int \<Rightarrow> controller \<Rightarrow> bool" where
  "drain_pre iv s =
     (processing s
      \<and> list_all publish_nonempty (trace s)
      \<and> last_ok 0 (trace s) = lastEditAt s)"

definition ctl_inv :: "int \<Rightarrow> controller \<Rightarrow> bool" where
  "ctl_inv iv s =
     ((processing s \<longleftrightarrow> phase s \<noteq> Idle)
      \<and> (phase s = Idle \<longrightarrow> awaiting s = None)
      \<and> (case phase s of
            Idle \<Rightarrow> True
          | Sleeping v due \<Rightarrow> v \<noteq> [] \<and> lastEditAt s + iv \<le> due
          | Editing v \<Rightarrow> v \<noteq> [])
      \<and> list_all publish_nonempty (trace s)
      \<and> last_ok 0 (trace s) = lastEditAt s)"

text \<open>The same pair for the gaps between calls of \<open>edit\<close>, in runs in which \<open>edit\<close> never rejects.\<close>

definition gap_pre :: "int \<Rightarrow> controller \<Rightarrow> bool" where
  "gap_pre iv s =
     (min_gap iv None (trace s)
      \<and> (\<forall>p. last_pub None (trace s) = Some p \<longrightarrow> p \<le> lastEditAt s))"

definition gap_inv :: "int \<Rightarrow> controller \<Rightarrow> bool" where
  "gap_inv iv s =
     (min_gap iv None (trace s)
      \<and> (\<forall>p. last_pub None (trace s) = Some p \<longrightarrow>
             (if is_editing (phase s) then p \<le> now s else p \<le> lastEditAt s)))"

section \<open>Kinds of output lines of the Codex child\<close>



























section \<open>Invariants of the session store\<close>

text \<open>
  Overrides as \<open>setModel\<close>, \<open>setReasoningEffort\<close> and the loader leave them: trimmed and not
  empty. A session as the operations and the loader leave it when the texts of the
  exchanges are not empty: the history within \<open>maxHistory\<close>, its messages from the user or
  the assistant and not empty. A store of such sessions, each key once.
\<close>

definition overrides_ok :: "(provider_name \<rightharpoonup> string) \<Rightarrow> bool" where
  "overrides_ok ov = (\<forall>p v. ov p = Some v \<longrightarrow> v \<noteq> [] \<and> trim v = v)"

definition session_ok :: "int \<Rightarrow> chat_session \<Rightarrow> bool" where
  "session_ok maxH s =
     (int (length (history s)) \<le> maxH
      \<and> (\<forall>m\<in>set (history s). content m \<noteq> [] \<and> role m \<noteq> System)
      \<and> overrides_ok (modelOverrides s)
      \<and> overrides_ok (reasoningEffortOverrides s))"

definition store_ok :: "session_store \<Rightarrow> bool" where
  "store_ok st =
     (distinct (map fst (sessions st))
      \<and> (\<forall>k s. map_of (sessions st) k = Some s \<longrightarrow> session_ok (maxHistory st) s))"

text \<open>
  A history made of exchanges: a user message, then an assistant message, and so on. The
  operations build nothing else.
\<close>

fun exchanges :: "conversation_message list \<Rightarrow> bool" where
  "exchanges [] = True"
| "exchanges [m] = False"
| "exchanges (u # a # rest) = (role u = User \<and> role a = Assistant \<and> exchanges rest)"

text \<open>
  A session file as a store with \<open>maxHistory\<close> 20 may find it: one conversation whose
  history is a single assistant message.
\<close>

definition sample_file :: disk_file where
  "sample_file =
     Doc (JObj [(''version'', JNum 1),
                (''savedAt'', JStr ''2026-01-01T00:00:00.000Z''),
                (''sessions'', JObj [(''chat'', JObj
                   [(''provider'', JStr ''codex''),
                    (''history'', JArr [JObj [(''role'', JStr ''assistant''),
                                              (''content'', JStr ''hello'')]]),
                    (''modelOverrides'', JObj []),
                    (''reasoningEffortOverrides'', JObj [])])])])"


section \<open>Session store: the in-memory operations\<close>

lemma sessions_persist [simp]: "sessions (persist st) = sessions st"
  by (simp add: persist_def split: option.splits)

lemma maxHistory_persist [simp]: "maxHistory (persist st) = maxHistory st"
  by (simp add: persist_def split: option.splits)

lemma sessions_put [simp]: "sessions (put_session k s st) = AList.update k s (sessions st)"
  by (simp add: put_session_def)

lemma maxHistory_put [simp]: "maxHistory (put_session k s st) = maxHistory st"
  by (simp add: put_session_def)

lemma getOrCreate_put:
  "getOrCreate k (persist (put_session k s st)) = (s, persist (put_session k s st))"
  by (simp add: getOrCreate_def update_conv')

lemma getOrCreate_cases:
  obtains s where "getOrCreate k st = (s, st)" "map_of (sessions st) k = Some s"
  | "getOrCreate k st = (new_session st, put_session k (new_session st) st)"
    "map_of (sessions st) k = None"
  by (cases "map_of (sessions st) k") (auto simp: getOrCreate_def)

text \<open>
  C4, as amended. \<open>setModel\<close> clears the override when the argument is \<open>undefined\<close> or trims
  to the empty string; every other string, \<open>default\<close> included, is stored trimmed, and
  \<open>getModel\<close> returns it.
\<close>

theorem setModel_then_getModel:
  "fst (getModel k p (setModel k p m st)) = (if blank m then None else Some (trim (the m)))"
  by (simp add: getModel_def setModel_def getOrCreate_put split: prod.splits)

text \<open>
  C4, witness: after \<open>gpt-x\<close>, a string of one space clears the override, and \<open>undefined\<close>
  does too.
\<close>

theorem setModel_then_getModel_witness:
  "blank (Some '' '')
   \<and> fst (getModel ''chat'' Codex (setModel ''chat'' Codex (Some '' '')
        (setModel ''chat'' Codex (Some ''gpt-x'') (SessionStore Codex 20 None NoFile [])))) = None
   \<and> fst (getModel ''chat'' Codex (setModel ''chat'' Codex None
        (setModel ''chat'' Codex (Some ''gpt-x'') (SessionStore Codex 20 None NoFile [])))) = None"
  using setModel_then_getModel [of "''chat''" Codex "Some '' ''"]
    setModel_then_getModel [of "''chat''" Codex None]
  by (simp add: blank_def trim_def is_space_def)

text \<open>
  C4, counterexample: after \<open>gpt-x\<close>, setting the model to the string \<open>default\<close> leaves the
  override \<open>default\<close> in the store; the override is not absent.
\<close>

theorem setModel_default_counterexample:
  "fst (getModel ''chat'' Codex (setModel ''chat'' Codex (Some ''default'')
     (setModel ''chat'' Codex (Some ''gpt-x'') (SessionStore Codex 20 None NoFile []))))
   = Some ''default''
   \<and> fst (getModel ''chat'' Codex (setModel ''chat'' Codex (Some ''default'')
     (setModel ''chat'' Codex (Some ''gpt-x'') (SessionStore Codex 20 None NoFile [])))) \<noteq> None"
  by (simp add: getModel_def setModel_def getOrCreate_put blank_def trim_def is_space_def
      split: prod.splits)

section \<open>Coalescer: invariants of every run\<close>

lemma last_ok_append [simp]: "last_ok ok (tr @ tr2) = last_ok (last_ok ok tr) tr2"
  by (induction ok tr rule: last_ok.induct) auto

lemma spaced_append [simp]:
  "spaced iv ok (tr @ tr2) = (spaced iv ok tr \<and> spaced iv (last_ok ok tr) tr2)"
  by (induction iv ok tr rule: spaced.induct) auto

lemma last_pub_append [simp]: "last_pub prev (tr @ tr2) = last_pub (last_pub prev tr) tr2"
  by (induction prev tr rule: last_pub.induct) auto

lemma min_gap_append [simp]:
  "min_gap iv prev (tr @ tr2) = (min_gap iv prev tr \<and> min_gap iv (last_pub prev tr) tr2)"
  by (induction iv prev tr rule: min_gap.induct) auto

lemma drain_inv: "drain_pre iv s \<Longrightarrow> ctl_inv iv (drain iv s)"
proof (induction iv s rule: drain.induct)
  case (1 iv s)
  show ?case
  proof (cases "pending s")
    case None
    with "1.prems" show ?thesis
      by (simp add: drain_pre_def ctl_inv_def run_done_def split: option.splits)
  next
    case (Some v)
    show ?thesis
    proof (cases "v = [] \<or> v = lastApplied s")
      case True
      have "drain_pre iv (s\<lparr>pending := None\<rparr>)"
        using "1.prems" by (simp add: drain_pre_def)
      with True Some "1.IH" have "ctl_inv iv (drain iv (s\<lparr>pending := None\<rparr>))"
        by simp
      with True Some show ?thesis
        by simp
    next
      case False
      with Some "1.prems" show ?thesis
        by (simp add: drain_pre_def ctl_inv_def call_edit_def Let_def)
    qed
  qed
qed

lemma drain_spaced:
  "last_ok 0 (trace s) = lastEditAt s \<Longrightarrow> spaced iv 0 (trace s)
   \<Longrightarrow> spaced iv 0 (trace (drain iv s))"
proof (induction iv s rule: drain.induct)
  case (1 iv s)
  show ?case
  proof (cases "pending s")
    case None
    with "1.prems" show ?thesis
      by (simp add: run_done_def split: option.splits)
  next
    case (Some v)
    show ?thesis
    proof (cases "v = [] \<or> v = lastApplied s")
      case True
      with Some "1.IH" "1.prems" have "spaced iv 0 (trace (drain iv (s\<lparr>pending := None\<rparr>)))"
        by simp
      with True Some show ?thesis
        by simp
    next
      case False
      with Some "1.prems" show ?thesis
        by (simp add: call_edit_def Let_def)
    qed
  qed
qed

lemma drain_gap: "gap_pre iv s \<Longrightarrow> gap_inv iv (drain iv s)"
proof (induction iv s rule: drain.induct)
  case (1 iv s)
  show ?case
  proof (cases "pending s")
    case None
    with "1.prems" show ?thesis
      by (auto simp: gap_pre_def gap_inv_def run_done_def split: option.splits)
  next
    case (Some v)
    show ?thesis
    proof (cases "v = [] \<or> v = lastApplied s")
      case True
      have "gap_pre iv (s\<lparr>pending := None\<rparr>)"
        using "1.prems" by (simp add: gap_pre_def)
      with True Some "1.IH" have "gap_inv iv (drain iv (s\<lparr>pending := None\<rparr>))"
        by simp
      with True Some show ?thesis
        by simp
    next
      case False
      with Some "1.prems" show ?thesis
        by (auto simp: gap_pre_def gap_inv_def call_edit_def Let_def split: option.splits)
    qed
  qed
qed

lemma drain_none: "pending s = None \<Longrightarrow> drain iv s = run_done s"
  by simp

lemma drain_skip:
  "pending s = Some v \<Longrightarrow> v = [] \<or> v = lastApplied s
   \<Longrightarrow> drain iv s = run_done (s\<lparr>pending := None\<rparr>)"
  by simp

lemma drain_sleep:
  "pending s = Some v \<Longrightarrow> v \<noteq> [] \<Longrightarrow> v \<noteq> lastApplied s \<Longrightarrow> iv - (now s - lastEditAt s) > 0
   \<Longrightarrow> drain iv s
       = s\<lparr>pending := None, phase := Sleeping v (now s + (iv - (now s - lastEditAt s)))\<rparr>"
  by (simp add: Let_def)

lemma drain_edit:
  "pending s = Some v \<Longrightarrow> v \<noteq> [] \<Longrightarrow> v \<noteq> lastApplied s \<Longrightarrow> \<not> iv - (now s - lastEditAt s) > 0
   \<Longrightarrow> drain iv s = call_edit v (s\<lparr>pending := None\<rparr>)"
  by (simp add: Let_def)

declare drain.simps [simp del]

lemma step_inv: "ctl_inv iv s \<Longrightarrow> ctl_inv iv (step iv s e)"
proof (cases e)
  case (Queue v)
  assume inv: "ctl_inv iv s"
  show ?thesis
  proof (cases "processing s")
    case True
    with inv Queue show ?thesis
      by (auto simp: run_def ctl_inv_def split: phase.splits)
  next
    case False
    have "drain_pre iv (s\<lparr>pending := Some v, processing := True, awaiting := None\<rparr>)"
      using inv by (simp add: ctl_inv_def drain_pre_def)
    from drain_inv[OF this] False Queue show ?thesis
      by (simp add: run_def)
  qed
next
  case (Flush v)
  assume inv: "ctl_inv iv s"
  show ?thesis
  proof (cases "processing s")
    case True
    with inv Flush show ?thesis
      by (auto simp: run_def ctl_inv_def split: phase.splits)
  next
    case False
    have "drain_pre iv (s\<lparr>pending := Some v, trace := trace s @ [FlushCall v],
                          processing := True, awaiting := Some v\<rparr>)"
      using inv by (simp add: ctl_inv_def drain_pre_def)
    from drain_inv[OF this] False Flush show ?thesis
      by (simp add: run_def)
  qed
next
  case (Tick d)
  assume "ctl_inv iv s"
  with Tick show ?thesis
    by (auto simp: ctl_inv_def split: phase.splits)
next
  case Wake
  assume "ctl_inv iv s"
  with Wake show ?thesis
    by (auto simp: ctl_inv_def call_edit_def split: phase.splits)
next
  case EditOk
  assume inv: "ctl_inv iv s"
  show ?thesis
  proof (cases "phase s")
    case (Editing v)
    have "drain_pre iv (s\<lparr>lastApplied := v, lastEditAt := now s,
                          trace := trace s @ [Applied v (now s)]\<rparr>)"
      using inv Editing by (simp add: ctl_inv_def drain_pre_def)
    from drain_inv[OF this] Editing EditOk show ?thesis
      by simp
  qed (use inv EditOk in simp_all)
next
  case EditErr
  assume "ctl_inv iv s"
  with EditErr show ?thesis
    by (auto simp: ctl_inv_def run_failed_def split: phase.splits option.splits)
qed

lemma step_spaced:
  assumes inv: "ctl_inv iv s" and sp: "spaced iv 0 (trace s)" and ot: "on_time s e"
  shows "spaced iv 0 (trace (step iv s e))"
proof (cases e)
  case (Queue v)
  show ?thesis
  proof (cases "processing s")
    case True
    with sp Queue show ?thesis
      by (simp add: run_def)
  next
    case False
    from inv sp have "spaced iv 0 (trace (drain iv (s\<lparr>pending := Some v, processing := True,
                                                     awaiting := None\<rparr>)))"
      by (intro drain_spaced) (simp_all add: ctl_inv_def)
    with False Queue show ?thesis
      by (simp add: run_def)
  qed
next
  case (Flush v)
  show ?thesis
  proof (cases "processing s")
    case True
    with sp Flush show ?thesis
      by (simp add: run_def)
  next
    case False
    from inv sp have "spaced iv 0 (trace (drain iv (s\<lparr>pending := Some v,
                        trace := trace s @ [FlushCall v], processing := True, awaiting := Some v\<rparr>)))"
      by (intro drain_spaced) (simp_all add: ctl_inv_def)
    with False Flush show ?thesis
      by (simp add: run_def)
  qed
next
  case (Tick d)
  with sp show ?thesis
    by simp
next
  case Wake
  with inv sp ot show ?thesis
    by (auto simp: ctl_inv_def call_edit_def split: phase.splits)
next
  case EditOk
  show ?thesis
  proof (cases "phase s")
    case (Editing v)
    from sp have "spaced iv 0 (trace (drain iv (s\<lparr>lastApplied := v, lastEditAt := now s,
                                 trace := trace s @ [Applied v (now s)]\<rparr>)))"
      by (intro drain_spaced) simp_all
    with Editing EditOk show ?thesis
      by simp
  qed (use sp EditOk in simp_all)
next
  case EditErr
  with sp show ?thesis
    by (auto simp: run_failed_def split: phase.splits option.splits)
qed

lemma step_gap:
  assumes "ctl_inv iv s" and "gap_inv iv s" and "e \<noteq> EditErr" and "on_time s e"
  shows "gap_inv iv (step iv s e)"
proof (cases e)
  case (Queue v)
  show ?thesis
  proof (cases "processing s")
    case True
    with assms Queue show ?thesis
      by (auto simp: run_def gap_inv_def split: option.splits phase.splits)
  next
    case False
    with assms have "gap_pre iv (s\<lparr>pending := Some v, processing := True, awaiting := None\<rparr>)"
      by (auto simp: ctl_inv_def gap_inv_def gap_pre_def split: option.splits)
    from drain_gap[OF this] False Queue show ?thesis
      by (simp add: run_def)
  qed
next
  case (Flush v)
  show ?thesis
  proof (cases "processing s")
    case True
    with assms Flush show ?thesis
      by (auto simp: run_def gap_inv_def split: option.splits phase.splits)
  next
    case False
    with assms have "gap_pre iv (s\<lparr>pending := Some v, trace := trace s @ [FlushCall v],
                                    processing := True, awaiting := Some v\<rparr>)"
      by (auto simp: ctl_inv_def gap_inv_def gap_pre_def split: option.splits)
    from drain_gap[OF this] False Flush show ?thesis
      by (simp add: run_def)
  qed
next
  case (Tick d)
  with assms show ?thesis
    by (auto simp: gap_inv_def split: option.splits phase.splits)
next
  case Wake
  with assms show ?thesis
    by (auto simp: ctl_inv_def gap_inv_def call_edit_def split: option.splits phase.splits)
next
  case EditOk
  show ?thesis
  proof (cases "phase s")
    case (Editing v)
    with assms have "gap_pre iv (s\<lparr>lastApplied := v, lastEditAt := now s,
                                    trace := trace s @ [Applied v (now s)]\<rparr>)"
      by (auto simp: gap_inv_def gap_pre_def split: option.splits)
    from drain_gap[OF this] Editing EditOk show ?thesis
      by simp
  qed (use assms EditOk in simp_all)
next
  case EditErr
  with assms show ?thesis
    by simp
qed

lemma init_inv: "ctl_inv iv (createStreamEditController t0)"
  by (simp add: ctl_inv_def createStreamEditController_def)

lemma exec_inv: "ctl_inv iv s \<Longrightarrow> ctl_inv iv (exec iv evs s)"
  unfolding exec_def by (induction evs arbitrary: s) (simp_all add: step_inv)

lemma exec_spaced:
  "ctl_inv iv s \<Longrightarrow> spaced iv 0 (trace s) \<Longrightarrow> punctual iv s evs
   \<Longrightarrow> spaced iv 0 (trace (exec iv evs s))"
  unfolding exec_def
proof (induction evs arbitrary: s)
  case Nil
  then show ?case
    by simp
next
  case (Cons e evs)
  from Cons.prems have "ctl_inv iv (step iv s e)" "spaced iv 0 (trace (step iv s e))"
    "punctual iv (step iv s e) evs"
    by (auto intro: step_inv step_spaced)
  with Cons.IH show ?case
    by simp
qed

lemma exec_gap:
  "ctl_inv iv s \<Longrightarrow> gap_inv iv s \<Longrightarrow> punctual iv s evs \<Longrightarrow> EditErr \<notin> set evs
   \<Longrightarrow> gap_inv iv (exec iv evs s)"
  unfolding exec_def
proof (induction evs arbitrary: s)
  case Nil
  then show ?case
    by simp
next
  case (Cons e evs)
  from Cons.prems have "ctl_inv iv (step iv s e)" "gap_inv iv (step iv s e)"
    "punctual iv (step iv s e) evs"
    by (auto intro: step_inv step_gap)
  with Cons show ?case
    by simp
qed

lemmas ctl_eval =
  exec_def run_def createStreamEditController_def drain.simps call_edit_def run_failed_def
  run_done_def

text \<open>
  C10. Whatever \<open>queue\<close> and \<open>flush\<close> calls and whatever timing a controller sees, \<open>edit\<close>
  is never called with the empty string.
\<close>

theorem publish_never_empty:
  "Publish v t \<in> set (trace (exec iv evs (createStreamEditController t0))) \<Longrightarrow> v \<noteq> []"
proof -
  assume a: "Publish v t \<in> set (trace (exec iv evs (createStreamEditController t0)))"
  have "ctl_inv iv (exec iv evs (createStreamEditController t0))"
    by (rule exec_inv[OF init_inv])
  then have "list_all publish_nonempty (trace (exec iv evs (createStreamEditController t0)))"
    by (simp add: ctl_inv_def)
  with a have "publish_nonempty (Publish v t)"
    by (auto simp: list_all_iff)
  then show ?thesis
    by simp
qed

text \<open>
  C10, witness: \<open>queue("")\<close>, then \<open>queue("a")\<close>, then \<open>flush("")\<close> once the edit has
  resolved; \<open>edit\<close> is called once, with \<open>a\<close>.
\<close>

theorem publish_never_empty_witness:
  "trace (exec 900 [Queue [], Queue ''a'', EditOk, Flush []] (createStreamEditController 1000))
     = [Publish ''a'' 1000, Applied ''a'' 1000, FlushCall [], FlushReturn []]
   \<and> Publish ''a'' 1000
       \<in> set (trace (exec 900 [Queue [], Queue ''a'', EditOk, Flush []] (createStreamEditController 1000)))
   \<and> ''a'' \<noteq> []"
  using publish_never_empty [of "''a''" 1000 900 "[Queue [], Queue ''a'', EditOk, Flush []]" 1000]
  by (simp add: ctl_eval)

text \<open>
  C8, as amended. In a run in which the clock never goes back and the timer of \<open>sleep\<close>
  never fires before the clock has reached the time it is due: every call of \<open>edit\<close>
  comes at least the interval after the latest \<open>edit\<close> that resolved (after time 0 when
  none has); and when no \<open>edit\<close> rejects, two consecutive calls of \<open>edit\<close> are at least
  the interval apart.
\<close>

theorem throttle:
  assumes "punctual iv (createStreamEditController t0) evs"
  shows "spaced iv 0 (trace (exec iv evs (createStreamEditController t0)))
         \<and> (EditErr \<notin> set evs
              \<longrightarrow> min_gap iv None (trace (exec iv evs (createStreamEditController t0))))"
proof
  show "spaced iv 0 (trace (exec iv evs (createStreamEditController t0)))"
    by (rule exec_spaced[OF init_inv _ assms]) (simp add: createStreamEditController_def)
next
  have "gap_inv iv (createStreamEditController t0)"
    by (simp add: gap_inv_def createStreamEditController_def)
  then show "EditErr \<notin> set evs
             \<longrightarrow> min_gap iv None (trace (exec iv evs (createStreamEditController t0)))"
    using exec_gap[OF init_inv _ assms] by (simp add: gap_inv_def)
qed

text \<open>
  C8, witness: two flushes 5 ms apart with an interval of 900 ms, the timer firing when it
  is due; the second \<open>edit\<close> waits until 900 ms after the first one resolved.
\<close>

theorem throttle_witness:
  "punctual 900 (createStreamEditController 1000)
     [Flush ''a'', Tick 5, EditOk, Flush ''b'', Tick 900, Wake, EditOk]
   \<and> EditErr \<notin> set [Flush ''a'', Tick 5, EditOk, Flush ''b'', Tick 900, Wake, EditOk]
   \<and> trace (exec 900 [Flush ''a'', Tick 5, EditOk, Flush ''b'', Tick 900, Wake, EditOk]
              (createStreamEditController 1000))
       = [FlushCall ''a'', Publish ''a'' 1000, Applied ''a'' 1005, FlushReturn ''a'',
          FlushCall ''b'', Publish ''b'' 1905, Applied ''b'' 1905, FlushReturn ''b'']
   \<and> min_gap 900 None (trace (exec 900 [Flush ''a'', Tick 5, EditOk, Flush ''b'', Tick 900, Wake, EditOk]
              (createStreamEditController 1000)))
   \<and> spaced 900 0 (trace (exec 900 [Flush ''a'', Tick 5, EditOk, Flush ''b'', Tick 900, Wake, EditOk]
              (createStreamEditController 1000)))"
proof -
  have p: "punctual 900 (createStreamEditController 1000)
             [Flush ''a'', Tick 5, EditOk, Flush ''b'', Tick 900, Wake, EditOk]"
    by (simp add: ctl_eval)
  from throttle [OF p] p show ?thesis
    by (simp add: ctl_eval)
qed

text \<open>
  C8, counterexample, with an interval of 900 ms. In a run with the clock and the timer as
  above: \<open>flush("a")\<close> calls \<open>edit\<close> at 1000, which rejects at 1005; \<open>flush("b")\<close> then calls
  \<open>edit\<close> at once, 5 ms after the call before. And in a run where the timer fires 1 ms
  before it is due: \<open>edit\<close> is called 899 ms after the call before, which had resolved.
\<close>

theorem throttle_counterexample:
  "punctual 900 (createStreamEditController 1000) [Flush ''a'', Tick 5, EditErr, Flush ''b'']
   \<and> trace (exec 900 [Flush ''a'', Tick 5, EditErr, Flush ''b''] (createStreamEditController 1000))
     = [FlushCall ''a'', Publish ''a'' 1000, Rejected ''a'' 1005, FlushThrow ''a'',
        FlushCall ''b'', Publish ''b'' 1005]
   \<and> \<not> min_gap 900 None
         (trace (exec 900 [Flush ''a'', Tick 5, EditErr, Flush ''b''] (createStreamEditController 1000)))
   \<and> trace (exec 900 [Queue ''a'', EditOk, Queue ''b'', Tick 899, Wake] (createStreamEditController 1000))
     = [Publish ''a'' 1000, Applied ''a'' 1000, Publish ''b'' 1899]
   \<and> \<not> min_gap 900 None
         (trace (exec 900 [Queue ''a'', EditOk, Queue ''b'', Tick 899, Wake] (createStreamEditController 1000)))"
  by (simp add: ctl_eval)

text \<open>
  C2, as amended. A \<open>flush(v)\<close> called while no loop is running, with no call of \<open>queue\<close>
  or \<open>flush\<close> before it returns: when \<open>v\<close> is not empty and differs from the text applied
  last, \<open>edit\<close> is called once, with \<open>v\<close>, and when that \<open>edit\<close> resolves \<open>flush\<close> returns,
  \<open>v\<close> being the text applied last; when \<open>v\<close> is empty or equal to the text applied last,
  \<open>flush\<close> returns without a call of \<open>edit\<close>. (\<open>d1\<close> is the time until the timer fires, if
  the loop sleeps; \<open>d2\<close> the time \<open>edit\<close> takes.)
\<close>

theorem flush_when_idle:
  assumes idle: "\<not> processing st"
  shows "(v \<noteq> [] \<and> v \<noteq> lastApplied st \<longrightarrow>
            (\<exists>t t'. trace (exec iv [Flush v, Tick d1, Wake, Tick d2, EditOk] st)
                       = trace st @ [FlushCall v, Publish v t, Applied v t', FlushReturn v])
            \<and> lastApplied (exec iv [Flush v, Tick d1, Wake, Tick d2, EditOk] st) = v
            \<and> \<not> processing (exec iv [Flush v, Tick d1, Wake, Tick d2, EditOk] st))
         \<and> (v = [] \<or> v = lastApplied st \<longrightarrow>
              trace (exec iv [Flush v] st) = trace st @ [FlushCall v, FlushReturn v]
              \<and> lastApplied (exec iv [Flush v] st) = lastApplied st)"
proof -
  have skip: "trace (exec iv [Flush v] st) = trace st @ [FlushCall v, FlushReturn v]
              \<and> lastApplied (exec iv [Flush v] st) = lastApplied st"
    if "v = [] \<or> v = lastApplied st"
    using that idle by (auto simp: exec_def run_def drain_skip run_done_def)
  have pub: "(\<exists>t t'. trace (exec iv [Flush v, Tick d1, Wake, Tick d2, EditOk] st)
                       = trace st @ [FlushCall v, Publish v t, Applied v t', FlushReturn v])
             \<and> lastApplied (exec iv [Flush v, Tick d1, Wake, Tick d2, EditOk] st) = v
             \<and> \<not> processing (exec iv [Flush v, Tick d1, Wake, Tick d2, EditOk] st)"
    if ne: "v \<noteq> []" and neq: "v \<noteq> lastApplied st"
  proof (cases "iv - (now st - lastEditAt st) > 0")
    case True
    with ne neq idle show ?thesis
      by (simp add: exec_def run_def drain_sleep drain_none call_edit_def run_done_def)
  next
    case False
    with ne neq idle show ?thesis
      by (simp add: exec_def run_def drain_edit drain_none call_edit_def run_done_def)
  qed
  from skip pub show ?thesis
    by blast
qed

text \<open>
  C2, witness: after \<open>a\<close> was queued and applied, \<open>flush("b")\<close> publishes \<open>b\<close> and then
  returns, and \<open>flush("a")\<close> returns without publishing.
\<close>

theorem flush_when_idle_witness:
  "\<not> processing (exec 900 [Queue ''a'', EditOk] (createStreamEditController 1000))
   \<and> trace (exec 900 [Flush ''b'', Tick 900, Wake, Tick 7, EditOk]
              (exec 900 [Queue ''a'', EditOk] (createStreamEditController 1000)))
       = [Publish ''a'' 1000, Applied ''a'' 1000,
          FlushCall ''b'', Publish ''b'' 1900, Applied ''b'' 1907, FlushReturn ''b'']
   \<and> trace (exec 900 [Flush ''a''] (exec 900 [Queue ''a'', EditOk] (createStreamEditController 1000)))
       = [Publish ''a'' 1000, Applied ''a'' 1000, FlushCall ''a'', FlushReturn ''a'']"
  using flush_when_idle [of "exec 900 [Queue ''a'', EditOk] (createStreamEditController 1000)"
          "''b''" 900 900 7]
    flush_when_idle [of "exec 900 [Queue ''a'', EditOk] (createStreamEditController 1000)"
          "''a''" 900 0 0]
  by (simp add: ctl_eval)

text \<open>
  C2, counterexample: a \<open>flush("b")\<close> called while \<open>edit("a")\<close> is in flight returns at
  once, the latest call of \<open>edit\<close> being the one with \<open>a\<close>; a \<open>flush("a")\<close> after \<open>a\<close> was
  applied returns without a call of \<open>edit\<close>; and \<open>flush("")\<close> returns without a call of
  \<open>edit\<close>.
\<close>

theorem flush_counterexample:
  "trace (exec 900 [Queue ''a'', Flush ''b''] (createStreamEditController 1000))
     = [Publish ''a'' 1000, FlushCall ''b'', FlushReturn ''b'']
   \<and> \<not> flush_applied None False
         (trace (exec 900 [Queue ''a'', Flush ''b''] (createStreamEditController 1000)))
   \<and> trace (exec 900 [Flush ''a'', EditOk, Flush ''a''] (createStreamEditController 1000))
     = [FlushCall ''a'', Publish ''a'' 1000, Applied ''a'' 1000, FlushReturn ''a'',
        FlushCall ''a'', FlushReturn ''a'']
   \<and> \<not> flush_applied None False
         (trace (exec 900 [Flush ''a'', EditOk, Flush ''a''] (createStreamEditController 1000)))
   \<and> trace (exec 900 [Flush []] (createStreamEditController 1000)) = [FlushCall [], FlushReturn []]
   \<and> \<not> flush_applied None False
         (trace (exec 900 [Flush []] (createStreamEditController 1000)))"
  by (simp add: ctl_eval)

section \<open>Orchestrator: what a request does to the histories\<close>

lemma history_of_persist [simp]: "history_of (persist st) k = history_of st k"
  by (simp add: history_of_def)

lemma history_of_put:
  "history_of (put_session k s st) k' = (if k' = k then history s else history_of st k')"
  by (simp add: history_of_def update_conv')

lemma getOrCreate_history:
  "getOrCreate k st = (s, st1)
   \<Longrightarrow> history s = history_of st k \<and> history_of st1 = history_of st \<and> maxHistory st1 = maxHistory st"
  by (rule getOrCreate_cases[of k st])
     (auto simp: history_of_def new_session_def fun_eq_iff update_conv')

lemma getProvider_history [simp]:
  "history_of (snd (getProvider k st)) = history_of st"
  "maxHistory (snd (getProvider k st)) = maxHistory st"
  by (auto simp: getProvider_def split: prod.splits dest: getOrCreate_history)

lemma getModel_history [simp]:
  "history_of (snd (getModel k p st)) = history_of st"
  "maxHistory (snd (getModel k p st)) = maxHistory st"
  by (auto simp: getModel_def split: prod.splits dest: getOrCreate_history)

lemma getReasoningEffort_history [simp]:
  "history_of (snd (getReasoningEffort k p st)) = history_of st"
  "maxHistory (snd (getReasoningEffort k p st)) = maxHistory st"
  by (auto simp: getReasoningEffort_def split: prod.splits dest: getOrCreate_history)

lemma buildPrompt_history [simp]:
  "history_of (snd (buildPrompt k u sp st)) = history_of st"
  "maxHistory (snd (buildPrompt k u sp st)) = maxHistory st"
  by (auto simp: buildPrompt_def Let_def split: prod.splits dest: getOrCreate_history)

lemma setProvider_history [simp]:
  "history_of (setProvider k p st) = history_of st"
  "maxHistory (setProvider k p st) = maxHistory st"
  by (auto simp: setProvider_def history_of_put fun_eq_iff split: prod.splits
      dest: getOrCreate_history)

lemma appendExchange_history:
  "history_of (appendExchange k u a st) k' =
     (if k' = k
      then (let pushed = history_of st k @ [\<lparr>role = User, content = u\<rparr>,
                                            \<lparr>role = Assistant, content = a\<rparr>]
            in if int (length pushed) > maxHistory st
               then dropLeadingAssistant (slice_from (- maxHistory st) pushed) else pushed)
      else history_of st k')"
  by (auto simp: appendExchange_def history_of_put Let_def split: prod.splits
      dest: getOrCreate_history)

lemma appendExchange_cong:
  "history_of st1 = history_of st \<Longrightarrow> maxHistory st1 = maxHistory st
   \<Longrightarrow> history_of (appendExchange k u a st1) = history_of (appendExchange k u a st)"
  by (simp add: fun_eq_iff appendExchange_history Let_def)

lemma askWith_history:
  assumes "askWith sp k u pn prov st = (r, st')"
  shows "(\<forall>e. r = Inl e \<longrightarrow> history_of st' = history_of st)
         \<and> (\<forall>p reply. r = Inr (p, reply)
               \<longrightarrow> history_of st' = history_of (appendExchange k u reply st))"
proof -
  obtain prompt st1 where b: "buildPrompt k u sp st = (prompt, st1)"
    by (cases "buildPrompt k u sp st")
  obtain m st2 where g: "getModel k pn st1 = (m, st2)"
    by (cases "getModel k pn st1")
  obtain e st3 where ge: "getReasoningEffort k pn st2 = (e, st3)"
    by (cases "getReasoningEffort k pn st2")
  have h3: "history_of st3 = history_of st" "maxHistory st3 = maxHistory st"
    using buildPrompt_history[of k u sp st] getModel_history[of k pn st1]
      getReasoningEffort_history[of k pn st2] b g ge
    by simp_all
  show ?thesis
    using assms b g ge h3 appendExchange_cong[OF h3]
    by (auto simp: askWith_def split: sum.splits)
qed

lemma getOrCreate_again: "getOrCreate k (snd (getOrCreate k st)) = getOrCreate k st"
  by (rule getOrCreate_cases[of k st]) (simp_all add: getOrCreate_def update_conv')

lemma snd_getters:
  "snd (getProvider k st) = snd (getOrCreate k st)"
  "snd (getModel k p st) = snd (getOrCreate k st)"
  "snd (getReasoningEffort k p st) = snd (getOrCreate k st)"
  "snd (buildPrompt k u sp st) = snd (getOrCreate k st)"
  by (simp_all add: getProvider_def getModel_def getReasoningEffort_def buildPrompt_def Let_def
                    split: prod.splits)

lemma fst_getters_again [simp]:
  "fst (getModel k p (snd (getOrCreate k st))) = fst (getModel k p st)"
  "fst (getReasoningEffort k p (snd (getOrCreate k st))) = fst (getReasoningEffort k p st)"
  "fst (buildPrompt k u sp (snd (getOrCreate k st))) = fst (buildPrompt k u sp st)"
  by (simp_all add: getModel_def getReasoningEffort_def buildPrompt_def getOrCreate_again)

lemma getOrCreate_setProvider:
  "getOrCreate k (setProvider k p st)
     = ((fst (getOrCreate k st))\<lparr>provider := p\<rparr>, setProvider k p st)"
  by (simp add: setProvider_def getOrCreate_put split: prod.splits)

lemma fst_getters_setProvider [simp]:
  "fst (getModel k p (setProvider k q st)) = fst (getModel k p st)"
  "fst (getReasoningEffort k p (setProvider k q st)) = fst (getReasoningEffort k p st)"
  "fst (buildPrompt k u sp (setProvider k q st)) = fst (buildPrompt k u sp st)"
  by (simp_all add: getModel_def getReasoningEffort_def buildPrompt_def getOrCreate_setProvider
                    split: prod.splits)

lemma askWith_result:
  "fst (askWith sp k u pn prov st)
     = (case prov (fst (buildPrompt k u sp st)) (fst (getModel k pn st))
                  (fst (getReasoningEffort k pn st)) of
          Inl err \<Rightarrow> Inl (StreamFailed err)
        | Inr answer \<Rightarrow> Inr (pn, answer))"
proof -
  obtain prompt st1 where b: "buildPrompt k u sp st = (prompt, st1)"
    by (cases "buildPrompt k u sp st")
  obtain m st2 where g: "getModel k pn st1 = (m, st2)"
    by (cases "getModel k pn st1")
  obtain e st3 where ge: "getReasoningEffort k pn st2 = (e, st3)"
    by (cases "getReasoningEffort k pn st2")
  from b have p: "prompt = fst (buildPrompt k u sp st)" and s1: "st1 = snd (getOrCreate k st)"
    using snd_getters(4)[of k u sp st] by simp_all
  from g s1 have m: "m = fst (getModel k pn st)"
    using fst_getters_again(1)[of k pn st] by simp
  from g s1 have s2: "st2 = snd (getOrCreate k st)"
    using snd_getters(2)[of k pn st1] by (simp add: getOrCreate_again)
  from ge s2 have e: "e = fst (getReasoningEffort k pn st)"
    using fst_getters_again(2)[of k pn st] by simp
  show ?thesis
    using b g ge by (simp add: askWith_def p[symmetric] m[symmetric] e[symmetric] split: sum.splits)
qed

text \<open>
  C7. \<open>askStream\<close> calls the \<open>stream\<close> of the conversation's provider, or of the first
  configured provider when that one is not configured, with the prompt built from the
  history and the user text and with the conversation's overrides; when that call fails,
  \<open>askStream\<close> fails with its error, and when it returns a reply, \<open>askStream\<close> returns the
  provider and the reply. When \<open>askStream\<close> fails, with whatever error, every
  conversation's history in the store is what it was before the call; when it succeeds,
  the histories are those that \<open>appendExchange\<close> with the user text and the reply gives;
  and with no provider configured it fails with the error that says so. (The request runs
  as one task: what other requests do to the store while the provider streams is outside
  this statement.)
\<close>

theorem askStream_history:
  assumes "askStream providers sp k u st = (r, st')"
  shows "(\<forall>e. r = Inl e \<longrightarrow> (\<forall>k'. history_of st' k' = history_of st k'))
         \<and> (\<forall>p reply. r = Inr (p, reply) \<longrightarrow>
               (\<forall>k'. history_of st' k' = history_of (appendExchange k u reply st) k'))
         \<and> (providers = [] \<longrightarrow> r = Inl NoProvidersAvailable)
         \<and> (\<forall>f. map_of providers (fst (getProvider k st)) = Some f \<longrightarrow>
               r = (case f (fst (buildPrompt k u sp st))
                           (fst (getModel k (fst (getProvider k st)) st))
                           (fst (getReasoningEffort k (fst (getProvider k st)) st)) of
                      Inl err \<Rightarrow> Inl (StreamFailed err)
                    | Inr answer \<Rightarrow> Inr (fst (getProvider k st), answer)))
         \<and> (\<forall>p f rest. map_of providers (fst (getProvider k st)) = None
                         \<and> providers = (p, f) # rest \<longrightarrow>
               r = (case f (fst (buildPrompt k u sp st)) (fst (getModel k p st))
                           (fst (getReasoningEffort k p st)) of
                      Inl err \<Rightarrow> Inl (StreamFailed err)
                    | Inr answer \<Rightarrow> Inr (p, answer)))"
proof -
  obtain pn st1 where gp: "getProvider k st = (pn, st1)"
    by (cases "getProvider k st")
  then have pn: "fst (getProvider k st) = pn" and st1: "st1 = snd (getOrCreate k st)"
    using snd_getters(1)[of k st] by simp_all
  have h1: "history_of st1 = history_of st" "maxHistory st1 = maxHistory st"
    using getProvider_history[of k st] gp by simp_all
  have unchanged: "(\<forall>e. r = Inl e \<longrightarrow> (\<forall>k'. history_of st' k' = history_of st k'))
         \<and> (\<forall>p reply. r = Inr (p, reply) \<longrightarrow>
               (\<forall>k'. history_of st' k' = history_of (appendExchange k u reply st) k'))
         \<and> (providers = [] \<longrightarrow> r = Inl NoProvidersAvailable)"
  proof (cases "map_of providers pn")
    case (Some prov)
    with assms gp have a: "askWith sp k u pn prov st1 = (r, st')"
      by (simp add: askStream_def)
    from Some have "providers \<noteq> []"
      by auto
    with askWith_history[OF a] h1 appendExchange_cong[OF h1] show ?thesis
      by simp
  next
    case None
    show ?thesis
    proof (cases providers)
      case Nil
      with assms gp None h1 show ?thesis
        by (auto simp: askStream_def getAvailableProviders_def)
    next
      case (Cons pf rest)
      obtain fallback f where pf: "pf = (fallback, f)"
        by (cases pf)
      let ?st2 = "setProvider k fallback st1"
      have h2: "history_of ?st2 = history_of st" "maxHistory ?st2 = maxHistory st"
        using h1 by simp_all
      from assms gp None Cons pf have a: "askWith sp k u fallback f ?st2 = (r, st')"
        by (simp add: askStream_def getAvailableProviders_def Let_def)
      with askWith_history[OF a] h2 appendExchange_cong[OF h2] Cons show ?thesis
        by simp
    qed
  qed
  have direct: "\<forall>f. map_of providers (fst (getProvider k st)) = Some f \<longrightarrow>
               r = (case f (fst (buildPrompt k u sp st))
                           (fst (getModel k (fst (getProvider k st)) st))
                           (fst (getReasoningEffort k (fst (getProvider k st)) st)) of
                      Inl err \<Rightarrow> Inl (StreamFailed err)
                    | Inr answer \<Rightarrow> Inr (fst (getProvider k st), answer))"
  proof (intro allI impI)
    fix f
    assume "map_of providers (fst (getProvider k st)) = Some f"
    with assms gp pn have "r = fst (askWith sp k u pn f st1)"
      by (simp add: askStream_def)
    then show "r = (case f (fst (buildPrompt k u sp st))
                           (fst (getModel k (fst (getProvider k st)) st))
                           (fst (getReasoningEffort k (fst (getProvider k st)) st)) of
                      Inl err \<Rightarrow> Inl (StreamFailed err)
                    | Inr answer \<Rightarrow> Inr (fst (getProvider k st), answer))"
      unfolding pn by (simp add: askWith_result st1)
  qed
  have fallback: "\<forall>p f rest. map_of providers (fst (getProvider k st)) = None
                         \<and> providers = (p, f) # rest \<longrightarrow>
               r = (case f (fst (buildPrompt k u sp st)) (fst (getModel k p st))
                           (fst (getReasoningEffort k p st)) of
                      Inl err \<Rightarrow> Inl (StreamFailed err)
                    | Inr answer \<Rightarrow> Inr (p, answer))"
  proof (intro allI impI)
    fix p f rest
    assume a: "map_of providers (fst (getProvider k st)) = None \<and> providers = (p, f) # rest"
    note n = a[unfolded pn, THEN conjunct1] and ps = a[THEN conjunct2]
    from ps have "map_of providers p = Some f" "getAvailableProviders providers = p # map fst rest"
      by (simp_all add: getAvailableProviders_def)
    with assms gp n have "r = fst (askWith sp k u p f (setProvider k p st1))"
      by (simp add: askStream_def Let_def)
    then show "r = (case f (fst (buildPrompt k u sp st)) (fst (getModel k p st))
                           (fst (getReasoningEffort k p st)) of
                      Inl err \<Rightarrow> Inl (StreamFailed err)
                    | Inr answer \<Rightarrow> Inr (p, answer))"
      by (simp add: askWith_result st1)
  qed
  from unchanged direct fallback show ?thesis
    by blast
qed

text \<open>
  C7, witness: a conversation with one exchange. When the provider's \<open>stream\<close> fails, the
  caller gets its error and the history still is that one exchange; when it returns
  \<open>fine\<close>, the caller gets the provider and \<open>fine\<close>, and the history has the new exchange
  at its end.
\<close>

theorem askStream_history_witness:
  "fst (askStream [(Codex, \<lambda>prompt m e. Inl ''boom'')] None ''chat'' ''again''
         (appendExchange ''chat'' ''hi'' ''hello'' (SessionStore Codex 20 None NoFile [])))
     = Inl (StreamFailed ''boom'')
   \<and> history_of (snd (askStream [(Codex, \<lambda>prompt m e. Inl ''boom'')] None ''chat'' ''again''
         (appendExchange ''chat'' ''hi'' ''hello'' (SessionStore Codex 20 None NoFile [])))) ''chat''
      = [\<lparr>role = User, content = ''hi''\<rparr>, \<lparr>role = Assistant, content = ''hello''\<rparr>]
   \<and> fst (askStream [(Codex, \<lambda>prompt m e. Inr ''fine'')] None ''chat'' ''again''
         (appendExchange ''chat'' ''hi'' ''hello'' (SessionStore Codex 20 None NoFile [])))
     = Inr (Codex, ''fine'')
   \<and> history_of (snd (askStream [(Codex, \<lambda>prompt m e. Inr ''fine'')] None ''chat'' ''again''
         (appendExchange ''chat'' ''hi'' ''hello'' (SessionStore Codex 20 None NoFile [])))) ''chat''
      = [\<lparr>role = User, content = ''hi''\<rparr>, \<lparr>role = Assistant, content = ''hello''\<rparr>,
         \<lparr>role = User, content = ''again''\<rparr>, \<lparr>role = Assistant, content = ''fine''\<rparr>]"
proof -
  let ?st = "appendExchange ''chat'' ''hi'' ''hello'' (SessionStore Codex 20 None NoFile [])"
  let ?bad = "\<lambda>(prompt :: conversation_message list) (m :: string option) (e :: string option).
                (Inl ''boom'' :: string + string)"
  let ?good = "\<lambda>(prompt :: conversation_message list) (m :: string option) (e :: string option).
                (Inr ''fine'' :: string + string)"
  let ?r = "askStream [(Codex, ?bad)] None ''chat'' ''again'' ?st"
  let ?s = "askStream [(Codex, ?good)] None ''chat'' ''again'' ?st"
  have pn: "fst (getProvider ''chat'' ?st) = Codex"
    by code_simp
  have h: "history_of ?st ''chat''
             = [\<lparr>role = User, content = ''hi''\<rparr>, \<lparr>role = Assistant, content = ''hello''\<rparr>]"
    by code_simp
  have h2: "history_of (appendExchange ''chat'' ''again'' ''fine'' ?st) ''chat''
      = [\<lparr>role = User, content = ''hi''\<rparr>, \<lparr>role = Assistant, content = ''hello''\<rparr>,
         \<lparr>role = User, content = ''again''\<rparr>, \<lparr>role = Assistant, content = ''fine''\<rparr>]"
    by code_simp
  have "?r = (fst ?r, snd ?r)"
    by simp
  from askStream_history[OF this] pn
  have r: "fst ?r = Inl (StreamFailed ''boom'')"
    and "fst ?r = Inl (StreamFailed ''boom'')
           \<longrightarrow> history_of (snd ?r) ''chat'' = history_of ?st ''chat''"
    by simp_all
  then have rh: "history_of (snd ?r) ''chat'' = history_of ?st ''chat''"
    by simp
  have "?s = (fst ?s, snd ?s)"
    by simp
  from askStream_history[OF this] pn
  have s: "fst ?s = Inr (Codex, ''fine'')"
    and "fst ?s = Inr (Codex, ''fine'')
           \<longrightarrow> history_of (snd ?s) ''chat''
               = history_of (appendExchange ''chat'' ''again'' ''fine'' ?st) ''chat''"
    by simp_all
  then have sh: "history_of (snd ?s) ''chat''
                   = history_of (appendExchange ''chat'' ''again'' ''fine'' ?st) ''chat''"
    by simp
  from r rh s sh h h2 show ?thesis
    by simp
qed

section \<open>Executor: the lines delivered\<close>

lemma split_on_nonempty [simp]: "split_on c s \<noteq> []"
  by (induction s) (auto split: list.splits)






lemma line_calls_append [simp]: "line_calls (xs @ ys) = line_calls xs @ line_calls ys"
  by (induction xs rule: line_calls.induct) auto

lemma line_calls_map [simp]: "line_calls (map LineCall ls) = ls"
  by (induction ls) auto



lemma stdout_of_append [simp]:
  "stdout_of decode (xs @ ys) = stdout_of decode xs @ stdout_of decode ys"
  by (induction decode xs rule: stdout_of.induct) auto











section \<open>Codex adapter: the reply after a late exit\<close>





















section \<open>Session store: persisting and loading\<close>

lemma trim_props: "trim s = [] \<or> (\<not> is_space (hd (trim s)) \<and> \<not> is_space (last (trim s)))"
proof (cases "trim s = []")
  case True
  then show ?thesis
    by simp
next
  case False
  let ?ys = "dropWhile is_space s"
  let ?zs = "dropWhile is_space (rev ?ys)"
  from False have zs: "?zs \<noteq> []"
    by (simp add: trim_def)
  then have "\<not> is_space (hd ?zs)"
    by (rule hd_dropWhile)
  with zs have l: "\<not> is_space (last (trim s))"
    by (simp add: trim_def last_rev)
  have ys: "?ys \<noteq> []"
  proof
    assume e: "?ys = []"
    have "?zs = []"
      by (simp only: e rev.simps dropWhile.simps)
    with zs show False
      by blast
  qed
  then have hy: "\<not> is_space (hd ?ys)"
    by (rule hd_dropWhile)
  have "rev ?ys = takeWhile is_space (rev ?ys) @ ?zs"
    by simp
  then have "?ys = rev ?zs @ rev (takeWhile is_space (rev ?ys))"
    by (metis rev_append rev_rev_ident)
  with zs have "hd ?ys = hd (rev ?zs)"
    by (metis hd_append2 rev_is_Nil_conv)
  with hy have "\<not> is_space (hd (trim s))"
    by (simp add: trim_def)
  with l show ?thesis
    by simp
qed

lemma trim_fixed:
  assumes "t \<noteq> []" and "\<not> is_space (hd t)" and "\<not> is_space (last t)"
  shows "trim t = t"
proof -
  from assms(2) have a: "dropWhile is_space t = t"
    by (simp add: dropWhile_eq_self_iff)
  from assms(1,3) have "dropWhile is_space (rev t) = rev t"
    by (simp add: dropWhile_eq_self_iff hd_rev)
  with a show ?thesis
    by (simp add: trim_def)
qed

lemma trim_trim [simp]: "trim (trim s) = trim s"
proof (cases "trim s = []")
  case True
  have "trim [] = []"
    by (simp add: trim_def)
  with True show ?thesis
    by simp
next
  case False
  with trim_props[of s] show ?thesis
    by (auto intro: trim_fixed)
qed

lemma slice_from_length: "1 \<le> m \<Longrightarrow> int (length (slice_from (- m) h)) \<le> m"
  by (auto simp: slice_from_def Let_def)

lemma slice_from_subset: "set (slice_from k h) \<subseteq> set h"
  by (auto simp: slice_from_def Let_def dest: in_set_dropD)

lemma dropLeadingAssistant_length: "length (dropLeadingAssistant h) \<le> length h"
  by (auto simp: dropLeadingAssistant_def slice_from_def Let_def split: list.splits)

lemma dropLeadingAssistant_subset: "set (dropLeadingAssistant h) \<subseteq> set h"
  using slice_from_subset[of 1 h] by (auto simp: dropLeadingAssistant_def split: list.splits)

lemma trimmed_length:
  "1 \<le> m \<Longrightarrow> int (length (dropLeadingAssistant (slice_from (- m) h))) \<le> m"
  using dropLeadingAssistant_length[of "slice_from (- m) h"] slice_from_length[of m h]
  by linarith

lemma trimmed_subset: "set (dropLeadingAssistant (slice_from k h)) \<subseteq> set h"
  using dropLeadingAssistant_subset[of "slice_from k h"] slice_from_subset[of k h]
  by blast

lemma trimHistory_length: "1 \<le> m \<Longrightarrow> int (length (trimHistory m h)) \<le> m"
  by (simp add: trimHistory_def trimmed_length)

lemma trimHistory_subset: "set (trimHistory m h) \<subseteq> set h"
  using trimmed_subset[of "- m" h] by (simp add: trimHistory_def)

lemma trimHistory_id: "int (length h) \<le> m \<Longrightarrow> trimHistory m h = h"
  by (simp add: trimHistory_def)

lemma normalizeProvider_str [simp]: "normalizeProvider (Some (JStr (provider_str p))) dp = p"
  by (cases p) simp_all

lemma normalizeItem_message:
  "content m \<noteq> [] \<Longrightarrow> role m \<noteq> System \<Longrightarrow> normalizeItem (message_json m) = [m]"
  by (cases m; cases "role m") (simp_all add: message_json_def)

lemma normalizeHistory_messages:
  "\<forall>m\<in>set h. content m \<noteq> [] \<and> role m \<noteq> System
   \<Longrightarrow> normalizeHistory (Some (JArr (map message_json h))) = h"
  by (induction h) (simp_all add: normalizeItem_message)

lemma normalizeOverrides_json:
  assumes "overrides_ok ov"
  shows "normalizeOverrides (Some (overrides_json ov)) = ov"
proof
  fix p
  from assms have ok: "\<And>q v. ov q = Some v \<Longrightarrow> trim v \<noteq> [] \<and> trim v = v"
    by (auto simp: overrides_ok_def)
  show "normalizeOverrides (Some (overrides_json ov)) p = ov p"
    by (cases p; cases "ov Codex"; cases "ov Claude")
       (auto simp: overrides_json_def providerNames_def dest: ok)
qed

lemma load_entry_session_json:
  assumes "session_ok (maxHistory st) s"
  shows "load_entry st (k, session_json s) = put_session k s st"
proof -
  from assms have c: "\<forall>m\<in>set (history s). content m \<noteq> [] \<and> role m \<noteq> System"
    and l: "int (length (history s)) \<le> maxHistory st"
    and om: "overrides_ok (modelOverrides s)"
    and oe: "overrides_ok (reasoningEffortOverrides s)"
    by (simp_all add: session_ok_def)
  have h: "normalizeHistory (Some (JArr (map message_json (history s)))) = history s"
    by (rule normalizeHistory_messages[OF c])
  have t: "trimHistory (maxHistory st) (history s) = history s"
    by (rule trimHistory_id[OF l])
  have m: "normalizeOverrides (Some (overrides_json (modelOverrides s))) = modelOverrides s"
    by (rule normalizeOverrides_json[OF om])
  have e: "normalizeOverrides (Some (overrides_json (reasoningEffortOverrides s)))
              = reasoningEffortOverrides s"
    by (rule normalizeOverrides_json[OF oe])
  show ?thesis
    by (cases s)
       (use h t m e in \<open>simp add: load_entry_def session_json_def
          del: normalizeHistory.simps normalizeOverrides.simps normalizeProvider.simps\<close>)
qed

lemma normalizeItem_ok:
  "m \<in> set (normalizeItem j) \<Longrightarrow> content m \<noteq> [] \<and> role m \<noteq> System"
  by (cases j) (auto split: option.splits json.splits if_splits)

lemma normalizeHistory_ok:
  "m \<in> set (normalizeHistory x) \<Longrightarrow> content m \<noteq> [] \<and> role m \<noteq> System"
proof (cases x)
  case None
  assume "m \<in> set (normalizeHistory x)"
  with None show ?thesis
    by simp
next
  case (Some j)
  assume a: "m \<in> set (normalizeHistory x)"
  show ?thesis
  proof (cases j)
    case (JArr input)
    with a Some obtain i where "m \<in> set (normalizeItem i)"
      by auto
    then show ?thesis
      by (rule normalizeItem_ok)
  qed (use a Some in simp_all)
qed

lemma normalizeOverrides_ok: "overrides_ok (normalizeOverrides x)"
proof (cases x)
  case None
  then show ?thesis
    by (simp add: overrides_ok_def)
next
  case (Some j)
  then show ?thesis
    by (cases j) (auto simp: overrides_ok_def split: option.splits json.splits if_splits)
qed

lemma persistencePath_persist [simp]: "persistencePath (persist st) = persistencePath st"
  by (simp add: persist_def split: option.splits)

lemma persistencePath_put [simp]: "persistencePath (put_session k s st) = persistencePath st"
  by (simp add: put_session_def)

lemma store_ok_persist [simp]: "store_ok (persist st) = store_ok st"
  by (simp add: store_ok_def)

lemma store_ok_put:
  "store_ok st \<Longrightarrow> session_ok (maxHistory st) s \<Longrightarrow> store_ok (put_session k s st)"
  by (auto simp: store_ok_def distinct_update update_conv' simp del: map_of_eq_Some_iff)

lemma new_session_ok: "0 \<le> m \<Longrightarrow> session_ok m (new_session st)"
  by (simp add: session_ok_def new_session_def overrides_ok_def)

lemma getOrCreate_ok:
  assumes "0 \<le> maxHistory st" and "store_ok st" and "getOrCreate k st = (s, st1)"
  shows "store_ok st1 \<and> session_ok (maxHistory st) s \<and> maxHistory st1 = maxHistory st
         \<and> persistencePath st1 = persistencePath st"
proof (rule getOrCreate_cases[of k st])
  fix s0
  assume "getOrCreate k st = (s0, st)" "map_of (sessions st) k = Some s0"
  with assms show ?thesis
    by (auto simp: store_ok_def simp del: map_of_eq_Some_iff)
next
  assume "getOrCreate k st = (new_session st, put_session k (new_session st) st)"
    "map_of (sessions st) k = None"
  with assms show ?thesis
    by (auto simp: store_ok_put new_session_ok)
qed

lemma appended_ok:
  assumes "1 \<le> m" and "session_ok m s" and "u \<noteq> []" and "a \<noteq> []"
  shows "session_ok m (s\<lparr>history :=
           (let pushed = history s @ [\<lparr>role = User, content = u\<rparr>] @ [\<lparr>role = Assistant, content = a\<rparr>]
            in if int (length pushed) > m
               then dropLeadingAssistant (slice_from (- m) pushed) else pushed)\<rparr>)"
proof -
  let ?pushed = "history s @ [\<lparr>role = User, content = u\<rparr>] @ [\<lparr>role = Assistant, content = a\<rparr>]"
  from assms have el: "\<forall>x\<in>set ?pushed. content x \<noteq> [] \<and> role x \<noteq> System"
    by (auto simp: session_ok_def)
  show ?thesis
  proof (cases "int (length ?pushed) > m")
    case True
    with assms(1,2) el trimmed_length[OF assms(1), of ?pushed] trimmed_subset[of "- m" ?pushed]
    show ?thesis
      by (auto simp: session_ok_def Let_def)
  next
    case False
    with assms(2) el show ?thesis
      by (auto simp: session_ok_def Let_def)
  qed
qed

lemma apply_op_ok:
  assumes m: "1 \<le> maxHistory st" and ok: "store_ok st" and ne: "nonempty_exchange op"
  shows "store_ok (apply_op st op) \<and> maxHistory (apply_op st op) = maxHistory st
         \<and> persistencePath (apply_op st op) = persistencePath st"
proof -
  from m have m0: "0 \<le> maxHistory st"
    by simp
  note g = getOrCreate_ok[OF m0 ok]
  show ?thesis
  proof (cases op)
    case (GetProvider k)
    then show ?thesis
      using g[of k] by (auto simp: getProvider_def split: prod.splits)
  next
    case (SetProvider k p)
    obtain s st1 where gc: "getOrCreate k st = (s, st1)"
      by (cases "getOrCreate k st")
    from g[OF gc] have "session_ok (maxHistory st1) (s\<lparr>provider := p\<rparr>)"
      by (simp add: session_ok_def)
    with g[OF gc] gc SetProvider show ?thesis
      by (simp add: setProvider_def store_ok_put)
  next
    case (Reset k)
    with ok show ?thesis
      by (auto simp: reset_def store_ok_def distinct_delete delete_conv' persist_def
          split: option.splits if_splits simp del: map_of_eq_Some_iff)
  next
    case (GetModel k p)
    then show ?thesis
      using g[of k] by (auto simp: getModel_def split: prod.splits)
  next
    case (SetModel k p v)
    obtain s st1 where gc: "getOrCreate k st = (s, st1)"
      by (cases "getOrCreate k st")
    from g[OF gc] have "session_ok (maxHistory st1) (s\<lparr>modelOverrides := (modelOverrides s)(p := None)\<rparr>)"
      "\<not> blank v \<Longrightarrow> session_ok (maxHistory st1)
          (s\<lparr>modelOverrides := (modelOverrides s)(p \<mapsto> trim (the v))\<rparr>)"
      by (auto simp: session_ok_def overrides_ok_def blank_def split: option.splits)
    with g[OF gc] gc SetModel show ?thesis
      by (simp add: setModel_def store_ok_put)
  next
    case (GetReasoningEffort k p)
    then show ?thesis
      using g[of k] by (auto simp: getReasoningEffort_def split: prod.splits)
  next
    case (SetReasoningEffort k p v)
    obtain s st1 where gc: "getOrCreate k st = (s, st1)"
      by (cases "getOrCreate k st")
    from g[OF gc] have "session_ok (maxHistory st1)
          (s\<lparr>reasoningEffortOverrides := (reasoningEffortOverrides s)(p := None)\<rparr>)"
      "\<not> blank v \<Longrightarrow> session_ok (maxHistory st1)
          (s\<lparr>reasoningEffortOverrides := (reasoningEffortOverrides s)(p \<mapsto> trim (the v))\<rparr>)"
      by (auto simp: session_ok_def overrides_ok_def blank_def split: option.splits)
    with g[OF gc] gc SetReasoningEffort show ?thesis
      by (simp add: setReasoningEffort_def store_ok_put)
  next
    case (BuildPrompt k u sp)
    then show ?thesis
      using g[of k] by (auto simp: buildPrompt_def Let_def split: prod.splits)
  next
    case (AppendExchange k u a)
    obtain s st1 where gc: "getOrCreate k st = (s, st1)"
      by (cases "getOrCreate k st")
    from ne AppendExchange have "u \<noteq> []" "a \<noteq> []"
      by simp_all
    from appended_ok[OF _ _ this, of "maxHistory st1" s] g[OF gc] m
    have "session_ok (maxHistory st1) (s\<lparr>history :=
           (let pushed = history s @ [\<lparr>role = User, content = u\<rparr>] @ [\<lparr>role = Assistant, content = a\<rparr>]
            in if int (length pushed) > maxHistory st1
               then dropLeadingAssistant (slice_from (- maxHistory st1) pushed) else pushed)\<rparr>)"
      by simp
    with g[OF gc] gc AppendExchange show ?thesis
      by (simp add: appendExchange_def store_ok_put Let_def)
  qed
qed

lemma run_ops_ok:
  "1 \<le> maxHistory st \<Longrightarrow> store_ok st \<Longrightarrow> \<forall>op\<in>set ops. nonempty_exchange op
   \<Longrightarrow> store_ok (run_ops ops st) \<and> maxHistory (run_ops ops st) = maxHistory st
       \<and> persistencePath (run_ops ops st) = persistencePath st"
  unfolding run_ops_def
proof (induction ops arbitrary: st)
  case Nil
  then show ?case
    by simp
next
  case (Cons op ops)
  from apply_op_ok[of st op] Cons.prems
  have a: "store_ok (apply_op st op)" "maxHistory (apply_op st op) = maxHistory st"
    "persistencePath (apply_op st op) = persistencePath st"
    by auto
  with Cons.IH[of "apply_op st op"] Cons.prems show ?case
    by simp
qed

lemma load_entry_ok:
  assumes "1 \<le> maxHistory st" and "store_ok st"
  shows "store_ok (load_entry st e) \<and> maxHistory (load_entry st e) = maxHistory st"
proof (cases "snd e")
  case (JObj v)
  let ?s = "\<lparr>provider = normalizeProvider (map_of v ''provider'') (defaultProvider st),
             history = trimHistory (maxHistory st) (normalizeHistory (map_of v ''history'')),
             modelOverrides = normalizeOverrides (map_of v ''modelOverrides''),
             reasoningEffortOverrides = normalizeOverrides (map_of v ''reasoningEffortOverrides'')\<rparr>"
  have "session_ok (maxHistory st) ?s"
    using trimHistory_length[OF assms(1)] trimHistory_subset normalizeHistory_ok normalizeOverrides_ok
    by (fastforce simp: session_ok_def simp del: normalizeHistory.simps normalizeOverrides.simps)
  with JObj assms(2) show ?thesis
    by (simp add: load_entry_def store_ok_put del: normalizeHistory.simps normalizeOverrides.simps)
qed (use assms in \<open>simp_all add: load_entry_def\<close>)

lemma foldl_load_entry_ok:
  "1 \<le> maxHistory st \<Longrightarrow> store_ok st
   \<Longrightarrow> store_ok (foldl load_entry st es) \<and> maxHistory (foldl load_entry st es) = maxHistory st"
proof (induction es arbitrary: st)
  case Nil
  then show ?case
    by simp
next
  case (Cons e es)
  from load_entry_ok[OF Cons.prems, of e] Cons.IH[of "load_entry st e"] Cons.prems show ?case
    by simp
qed

lemma loadFromDisk_ok:
  "1 \<le> maxHistory st \<Longrightarrow> store_ok st \<Longrightarrow> store_ok (loadFromDisk st)"
  by (auto simp: loadFromDisk_def foldl_load_entry_ok split: option.splits disk_file.splits json.splits)

lemma SessionStore_ok:
  "1 \<le> maxH \<Longrightarrow> store_ok (SessionStore dp maxH path file t)"
  unfolding SessionStore_def by (rule loadFromDisk_ok) (simp_all add: store_ok_def)

lemma foldl_load_entry_json:
  "\<forall>(k, s)\<in>set al. session_ok (maxHistory st) s
   \<Longrightarrow> sessions (foldl load_entry st (map (\<lambda>(k, s). (k, session_json s)) al))
       = foldl (\<lambda>acc (k, s). AList.update k s acc) (sessions st) al"
proof (induction al arbitrary: st)
  case Nil
  then show ?case
    by simp
next
  case (Cons e al)
  obtain k s where e: "e = (k, s)"
    by (cases e)
  with Cons.prems have ok: "session_ok (maxHistory st) s"
    by simp
  have st1: "load_entry st (k, session_json s) = put_session k s st"
    by (rule load_entry_session_json[OF ok])
  from Cons.prems have "\<forall>(k1, s1)\<in>set al. session_ok (maxHistory (put_session k s st)) s1"
    by simp
  from Cons.IH[OF this] e st1 show ?case
    by simp
qed

lemma map_of_foldl_update:
  "distinct (map fst al)
   \<Longrightarrow> map_of (foldl (\<lambda>acc (k, s). AList.update k s acc) acc al) = map_of acc ++ map_of al"
proof (induction al arbitrary: acc)
  case Nil
  then show ?case
    by simp
next
  case (Cons e al)
  obtain k s where e: "e = (k, s)"
    by (cases e)
  with Cons.prems have k: "k \<notin> dom (map_of al)" and d: "distinct (map fst al)"
    by (auto simp: dom_map_of_conv_image_fst)
  from k have "map_of al k = None"
    by blast
  with Cons.IH[OF d, of "AList.update k s acc"] e show ?case
    by (auto simp: update_conv' map_add_def fun_eq_iff split: option.splits)
qed

text \<open>What the constructor finds in the file that \<open>persist\<close> wrote for a store \<open>st\<close>.\<close>

lemma load_payload:
  assumes "store_ok st" and "trim path \<noteq> []" and "maxHistory st = maxH"
  shows "map_of (sessions (SessionStore dp maxH (Some path) (Doc (payload st)) t))
           = map_of (sessions st)"
proof -
  let ?init = "\<lparr>defaultProvider = dp, maxHistory = maxH, persistencePath = Some (trim path),
               sessions = [], disk = Doc (payload st), clock = t\<rparr>"
  from assms have all: "\<forall>(k, s)\<in>set (sessions st). session_ok (maxHistory ?init) s"
    and d: "distinct (map fst (sessions st))"
    by (auto simp: store_ok_def)
  have "sessions (SessionStore dp maxH (Some path) (Doc (payload st)) t)
          = sessions (foldl load_entry ?init (map (\<lambda>(k, s). (k, session_json s)) (sessions st)))"
    using assms(2) by (simp add: SessionStore_def loadFromDisk_def payload_def)
  also have "\<dots> = foldl (\<lambda>acc (k, s). AList.update k s acc) [] (sessions st)"
    using foldl_load_entry_json[OF all] by simp
  finally show ?thesis
    using map_of_foldl_update[OF d, of "[]"] by simp
qed

lemma SessionStore_fields:
  "maxHistory (SessionStore dp maxH path file t) = maxH"
  "trim p \<noteq> [] \<Longrightarrow> persistencePath (SessionStore dp maxH (Some p) file t) = Some (trim p)"
proof -
  have a: "maxHistory (foldl load_entry st es) = maxHistory st
           \<and> persistencePath (foldl load_entry st es) = persistencePath st" for st es
    by (induction es arbitrary: st) (auto simp: load_entry_def put_session_def split: json.splits)
  have b: "maxHistory (loadFromDisk st) = maxHistory st
           \<and> persistencePath (loadFromDisk st) = persistencePath st" for st
    by (auto simp: loadFromDisk_def a split: option.splits disk_file.splits json.splits)
  show "maxHistory (SessionStore dp maxH path file t) = maxH"
    by (simp add: SessionStore_def b)
  show "trim p \<noteq> [] \<Longrightarrow> persistencePath (SessionStore dp maxH (Some p) file t) = Some (trim p)"
    by (simp add: SessionStore_def b)
qed

text \<open>
  C3, as amended. With a persistence path, \<open>maxHistory\<close> at least 1, and a store that was
  loaded from any file and then went through any operations whose exchanges have a user
  text and a reply that are not empty: what \<open>persist\<close> writes, loaded by a store with the
  same \<open>maxHistory\<close>, gives the same session for every conversation, and no other.
\<close>

theorem persist_load_roundtrip:
  assumes "1 \<le> maxH" and "trim path \<noteq> []" and "\<forall>op\<in>set ops. nonempty_exchange op"
  shows "map_of (sessions (SessionStore dp2 maxH (Some path)
                   (disk (persist (run_ops ops (SessionStore dp maxH (Some path) file t)))) t2))
         = map_of (sessions (run_ops ops (SessionStore dp maxH (Some path) file t)))"
proof -
  let ?init = "SessionStore dp maxH (Some path) file t"
  let ?st = "run_ops ops ?init"
  have ok0: "store_ok ?init"
    by (rule SessionStore_ok[OF assms(1)])
  have m0: "maxHistory ?init = maxH"
    by (rule SessionStore_fields(1))
  have p0: "persistencePath ?init = Some (trim path)"
    by (rule SessionStore_fields(2)[OF assms(2)])
  have "store_ok ?st \<and> maxHistory ?st = maxHistory ?init
        \<and> persistencePath ?st = persistencePath ?init"
    by (rule run_ops_ok) (use ok0 assms m0 in simp_all)
  with m0 p0 have ok: "store_ok ?st" and m: "maxHistory ?st = maxH"
    and p: "persistencePath ?st = Some (trim path)"
    by simp_all
  from p have "disk (persist ?st) = Doc (payload ?st)"
    by (simp add: persist_def)
  with load_payload[OF ok assms(2) m, of dp2 t2] show ?thesis
    by simp
qed


text \<open>
  C3, witness: a model override, an exchange and a look at a second conversation; the
  store loaded from what \<open>persist\<close> wrote has the same history and override for the first
  conversation and the empty session for the second.
\<close>

theorem persist_load_roundtrip_witness:
  "history_of (SessionStore Claude 20 (Some ''store.json'')
       (disk (persist (run_ops [SetModel ''chat'' Codex (Some ''gpt-x''),
                                AppendExchange ''chat'' ''hi'' ''hello'', GetProvider ''other'']
                         (SessionStore Codex 20 (Some ''store.json'') NoFile [])))) []) ''chat''
     = [\<lparr>role = User, content = ''hi''\<rparr>, \<lparr>role = Assistant, content = ''hello''\<rparr>]
   \<and> map_option provider (map_of (sessions (SessionStore Claude 20 (Some ''store.json'')
       (disk (persist (run_ops [SetModel ''chat'' Codex (Some ''gpt-x''),
                                AppendExchange ''chat'' ''hi'' ''hello'', GetProvider ''other'']
                         (SessionStore Codex 20 (Some ''store.json'') NoFile [])))) [])) ''other'')
     = Some Codex"
proof -
  let ?ops = "[SetModel ''chat'' Codex (Some ''gpt-x''),
               AppendExchange ''chat'' ''hi'' ''hello'', GetProvider ''other'']"
  let ?st = "run_ops ?ops (SessionStore Codex 20 (Some ''store.json'') NoFile [])"
  have a: "(1::int) \<le> 20" "trim ''store.json'' \<noteq> []" "\<forall>op\<in>set ?ops. nonempty_exchange op"
    by (simp_all add: trim_def is_space_def)
  have h: "history_of ?st ''chat''
             = [\<lparr>role = User, content = ''hi''\<rparr>, \<lparr>role = Assistant, content = ''hello''\<rparr>]"
    by code_simp
  have p: "map_option provider (map_of (sessions ?st) ''other'') = Some Codex"
    by code_simp
  from persist_load_roundtrip [OF a, of Claude Codex NoFile "[]" "[]"] h p show ?thesis
    by (simp add: history_of_def)
qed

text \<open>
  C3, counterexample: an exchange with an empty user text; the store loaded from what
  \<open>persist\<close> wrote has lost the user message.
\<close>

theorem persist_load_counterexample:
  "history_of (run_ops [AppendExchange ''chat'' [] ''r'']
                 (SessionStore Codex 20 (Some ''store.json'') NoFile [])) ''chat''
     = [\<lparr>role = User, content = []\<rparr>, \<lparr>role = Assistant, content = ''r''\<rparr>]
   \<and> history_of (SessionStore Codex 20 (Some ''store.json'')
        (disk (persist (run_ops [AppendExchange ''chat'' [] ''r'']
                          (SessionStore Codex 20 (Some ''store.json'') NoFile [])))) []) ''chat''
     = [\<lparr>role = Assistant, content = ''r''\<rparr>]"
  by code_simp

section \<open>Session store: the history invariant\<close>

lemma exchanges_append:
  "exchanges h \<Longrightarrow> exchanges (h @ [\<lparr>role = User, content = u\<rparr>, \<lparr>role = Assistant, content = a\<rparr>])"
  by (induction h rule: exchanges.induct) auto

lemma exchanges_drop: "exchanges h \<Longrightarrow> exchanges (dropLeadingAssistant (drop n h))"
proof (induction h arbitrary: n rule: exchanges.induct)
  case 1
  then show ?case
    by (simp add: dropLeadingAssistant_def)
next
  case (2 m)
  then show ?case
    by simp
next
  case (3 u a rest)
  show ?case
  proof (cases n)
    case 0
    with 3 show ?thesis
      by (simp add: dropLeadingAssistant_def)
  next
    case (Suc n1)
    show ?thesis
    proof (cases n1)
      case 0
      with Suc 3 show ?thesis
        by (simp add: dropLeadingAssistant_def slice_from_def)
    next
      case (Suc n2)
      with \<open>n = Suc n1\<close> 3 show ?thesis
        by simp
    qed
  qed
qed

lemma exchanges_first: "exchanges h \<Longrightarrow> (case h of [] \<Rightarrow> True | m # _ \<Rightarrow> role m = User)"
  by (induction h rule: exchanges.induct) auto

text \<open>
  What does hold of \<open>appendExchange\<close>: with \<open>maxHistory\<close> at least 1 the history it leaves
  is within \<open>maxHistory\<close>, whatever it was; and when the history was made of exchanges, it
  still is, so that its first message is from the user.
\<close>

lemma appendExchange_bound:
  "1 \<le> maxHistory st
   \<Longrightarrow> int (length (history_of (appendExchange k u a st) k)) \<le> maxHistory st"
  using trimmed_length[of "maxHistory st"]
  by (auto simp: appendExchange_history Let_def)

lemma appendExchange_exchanges:
  assumes "exchanges (history_of st k)"
  shows "exchanges (history_of (appendExchange k u a st) k')
           = exchanges (history_of (if k' = k then appendExchange k u a st else st) k')"
    and "exchanges (history_of (appendExchange k u a st) k)"
proof -
  let ?pushed = "history_of st k @ [\<lparr>role = User, content = u\<rparr>, \<lparr>role = Assistant, content = a\<rparr>]"
  have p: "exchanges ?pushed"
    by (rule exchanges_append[OF assms])
  have "exchanges (dropLeadingAssistant (slice_from (- maxHistory st) ?pushed))"
    using exchanges_drop[OF p] by (simp add: slice_from_def Let_def)
  with p show "exchanges (history_of (appendExchange k u a st) k)"
    by (simp add: appendExchange_history Let_def)
  show "exchanges (history_of (appendExchange k u a st) k')
           = exchanges (history_of (if k' = k then appendExchange k u a st else st) k')"
    by (simp add: appendExchange_history)
qed

lemma setModel_history [simp]: "history_of (setModel k p m st) = history_of st"
  by (auto simp: setModel_def history_of_put fun_eq_iff split: prod.splits
      dest: getOrCreate_history)

lemma setReasoningEffort_history [simp]:
  "history_of (setReasoningEffort k p e st) = history_of st"
  by (auto simp: setReasoningEffort_def history_of_put fun_eq_iff split: prod.splits
      dest: getOrCreate_history)

lemma reset_history: "history_of (reset k st) k' = (if k' = k then [] else history_of st k')"
  by (simp add: reset_def history_of_def delete_conv')

lemma getOrCreate_maxHistory: "maxHistory (snd (getOrCreate k st)) = maxHistory st"
  by (simp add: getOrCreate_def split: option.splits)

lemma apply_op_fields: "maxHistory (apply_op st op) = maxHistory st"
proof (cases op)
  case (Reset k)
  then show ?thesis
    by (simp add: reset_def)
next
  case (SetModel k p m)
  then show ?thesis
    using getOrCreate_maxHistory[of k st]
    by (auto simp: setModel_def split: prod.splits)
next
  case (SetReasoningEffort k p e)
  then show ?thesis
    using getOrCreate_maxHistory[of k st]
    by (auto simp: setReasoningEffort_def split: prod.splits)
next
  case (AppendExchange k u a)
  then show ?thesis
    using getOrCreate_maxHistory[of k st]
    by (auto simp: appendExchange_def Let_def split: prod.splits)
qed simp_all

lemma apply_op_exchanges:
  assumes "\<forall>k. exchanges (history_of st k)"
  shows "exchanges (history_of (apply_op st op) k)"
proof (cases op)
  case (AppendExchange k1 u a)
  with assms appendExchange_exchanges(1)[of st k1 u a k]
    appendExchange_exchanges(2)[of st k1 u a] show ?thesis
    by (cases "k = k1") simp_all
qed (use assms in \<open>simp_all add: reset_history\<close>)

lemma run_ops_exchanges:
  "\<forall>k. exchanges (history_of st k) \<Longrightarrow> exchanges (history_of (run_ops ops st) k)"
  unfolding run_ops_def
proof (induction ops arbitrary: st k)
  case Nil
  then show ?case
    by simp
next
  case (Cons op ops)
  from Cons.prems have "\<forall>k. exchanges (history_of (apply_op st op) k)"
    by (simp add: apply_op_exchanges)
  from Cons.IH[OF this] show ?case
    by simp
qed

text \<open>
  So for a store that started without a file the invariant of C1 holds after every
  \<open>appendExchange\<close>, whatever operations came before.
\<close>

lemma fresh_store_history_inv:
  assumes "1 \<le> maxH"
  shows "history_inv maxH
           (history_of (appendExchange k u a (run_ops ops (SessionStore dp maxH path NoFile t))) k)"
proof -
  let ?st = "run_ops ops (SessionStore dp maxH path NoFile t)"
  have "sessions (SessionStore dp maxH path NoFile t) = []"
    by (simp add: SessionStore_def loadFromDisk_def split: option.splits)
  then have "\<forall>k. exchanges (history_of (SessionStore dp maxH path NoFile t) k)"
    by (simp add: history_of_def)
  then have e: "exchanges (history_of ?st k)"
    by (rule run_ops_exchanges)
  have ok: "store_ok (SessionStore dp maxH path NoFile t)"
    by (rule SessionStore_ok[OF assms])
  have "maxHistory ?st = maxH"
  proof -
    have "maxHistory (foldl apply_op st os) = maxHistory st" for st os
      by (induction os arbitrary: st)
         (simp_all add: apply_op_fields)
    then show ?thesis
      by (simp add: run_ops_def SessionStore_fields(1))
  qed
  moreover have x: "exchanges (history_of (appendExchange k u a ?st) k)"
    by (rule appendExchange_exchanges(2)[OF e])
  ultimately show ?thesis
    using appendExchange_bound[of ?st k u a] assms exchanges_first[OF x]
    by (simp add: history_inv_def)
qed

text \<open>
  C1, at the failing input. A store with \<open>maxHistory\<close> 20 appends an exchange whose user
  text is empty and persists; a store constructed from that file has a history that
  begins with the assistant message, and still does after the next \<open>appendExchange\<close>. The
  same with the sample file, whose history is one assistant message.
\<close>

theorem loaded_history_starts_with_assistant:
  "history_of (appendExchange ''chat'' ''u'' ''a''
      (SessionStore Codex 20 (Some ''store.json'')
         (disk (appendExchange ''chat'' [] ''r''
                  (SessionStore Codex 20 (Some ''store.json'') NoFile []))) [])) ''chat''
     = [\<lparr>role = Assistant, content = ''r''\<rparr>, \<lparr>role = User, content = ''u''\<rparr>,
        \<lparr>role = Assistant, content = ''a''\<rparr>]
   \<and> \<not> history_inv 20 (history_of (appendExchange ''chat'' ''u'' ''a''
      (SessionStore Codex 20 (Some ''store.json'')
         (disk (appendExchange ''chat'' [] ''r''
                  (SessionStore Codex 20 (Some ''store.json'') NoFile []))) [])) ''chat'')
   \<and> history_of (appendExchange ''chat'' ''u'' ''a''
        (SessionStore Codex 20 (Some ''store.json'') sample_file [])) ''chat''
     = [\<lparr>role = Assistant, content = ''hello''\<rparr>, \<lparr>role = User, content = ''u''\<rparr>,
        \<lparr>role = Assistant, content = ''a''\<rparr>]
   \<and> \<not> history_inv 20 (history_of (appendExchange ''chat'' ''u'' ''a''
        (SessionStore Codex 20 (Some ''store.json'') sample_file [])) ''chat'')"
  by code_simp


end
